theory Spec2Isabelle
  imports Main "HOL-Library.Word" "HOL-Library.Multiset"
begin

unbundle bit_operations_syntax

section \<open>Buffers and errors\<close>

text \<open>
  A Node.js \<^verbatim>\<open>Buffer\<close> is a list of bytes. JavaScript numbers that hold sizes, offsets and
  unsigned header fields are natural numbers; where the source computes with signed 32-bit
  values or lets a number go negative, the model uses \<^verbatim>\<open>int\<close>.
\<close>

type_synonym byte = "8 word"

text \<open>
  Every \<^verbatim>\<open>throw\<close> of the source is a constructor. The messages of the source are, in order:
  "Not a valid NVM3 page!", "Unsupported NVM3 page version: ...", "Invalid erase count!",
  "Incomplete page in buffer!", "Not enough pages!". \<^verbatim>\<open>RangeError\<close> is what the Buffer
  read and write methods raise on an offset or value out of range. \<^verbatim>\<open>BergerCodeError\<close>
  is raised by \<^verbatim>\<open>validateBergerCode\<close>, and \<^verbatim>\<open>ObjectError\<close> stands for any failure of
  the object layer (reading, writing or fragmenting an object). No error of the source
  carries a byte offset.
\<close>

datatype error =
    NotAValidPage
  | UnsupportedPageVersion nat
  | InvalidEraseCount
  | IncompletePage
  | NotEnoughPages
  | RangeError
  | BergerCodeError
  | ObjectError nat

definition bindE :: "error + 'a \<Rightarrow> ('a \<Rightarrow> error + 'b) \<Rightarrow> error + 'b" where
  \<comment> \<open>Sequencing of code that may raise: the first error ends the computation.\<close>
  "bindE r f = (case r of Inl e \<Rightarrow> Inl e | Inr x \<Rightarrow> f x)"

definition sliceBuffer :: "byte list \<Rightarrow> nat \<Rightarrow> nat \<Rightarrow> byte list" where
  \<comment> \<open>\<^verbatim>\<open>buffer.slice(start, end)\<close> for non-negative indices: both ends are clamped.\<close>
  "sliceBuffer buffer start end = take (end - start) (drop start buffer)"

definition readUInt16LE :: "byte list \<Rightarrow> nat \<Rightarrow> error + nat" where
  "readUInt16LE buffer offset =
     (if offset + 2 \<le> length buffer
      then Inr (unat (buffer ! offset) + 256 * unat (buffer ! (offset + 1)))
      else Inl RangeError)"

definition readUInt32LE :: "byte list \<Rightarrow> nat \<Rightarrow> error + nat" where
  "readUInt32LE buffer offset =
     (if offset + 4 \<le> length buffer
      then Inr (unat (buffer ! offset) + 256 * unat (buffer ! (offset + 1))
                + 65536 * unat (buffer ! (offset + 2)) + 16777216 * unat (buffer ! (offset + 3)))
      else Inl RangeError)"

definition writeUInt16LE :: "int \<Rightarrow> error + byte list" where
  \<comment> \<open>The two bytes written; a value outside 0..65535 raises.\<close>
  "writeUInt16LE v =
     (if 0 \<le> v \<and> v \<le> 65535
      then Inr [word_of_int v, word_of_int (drop_bit 8 v)]
      else Inl RangeError)"

definition writeUInt32LE :: "int \<Rightarrow> error + byte list" where
  "writeUInt32LE v =
     (if 0 \<le> v \<and> v \<le> 4294967295
      then Inr [word_of_int v, word_of_int (drop_bit 8 v),
                word_of_int (drop_bit 16 v), word_of_int (drop_bit 24 v)]
      else Inl RangeError)"

definition writeInt32LE :: "int \<Rightarrow> error + byte list" where
  \<comment> \<open>Two's complement, little endian; a value outside the signed 32-bit range raises.\<close>
  "writeInt32LE v =
     (if - 2147483648 \<le> v \<and> v \<le> 2147483647
      then Inr [word_of_int v, word_of_int (drop_bit 8 v),
                word_of_int (drop_bit 16 v), word_of_int (drop_bit 24 v)]
      else Inl RangeError)"

definition toInt32 :: "int \<Rightarrow> int" where
  \<comment> \<open>The result of a JavaScript bitwise operator is a signed 32-bit integer.\<close>
  "toInt32 x = (x + 2147483648) mod 4294967296 - 2147483648"

definition copy :: "byte list \<Rightarrow> byte list \<Rightarrow> int \<Rightarrow> error + byte list" where
  \<comment> \<open>\<^verbatim>\<open>source.copy(target, targetStart)\<close>: the target after the call. The target
      never grows; what does not fit is dropped. A negative start raises.\<close>
  "copy source target targetStart =
     (if targetStart < 0 then Inl RangeError
      else let start = nat targetStart in
        if start \<ge> length target then Inr target
        else Inr (take start target @ take (length target - start) source
                  @ drop (start + length source) target))"

section \<open>Integrity primitives\<close>

fun popcount :: "nat \<Rightarrow> nat" where
  "popcount n = (if n = 0 then 0 else n mod 2 + popcount (n div 2))"

declare popcount.simps [simp del]

fun ceilLog2 :: "nat \<Rightarrow> nat" where
  \<comment> \<open>The least \<^verbatim>\<open>k\<close> with \<^verbatim>\<open>n \<le> 2 ^ k\<close>.\<close>
  "ceilLog2 n = (if n \<le> 1 then 0 else Suc (ceilLog2 ((n + 1) div 2)))"

declare ceilLog2.simps [simp del]

definition computeBergerCode :: "nat \<Rightarrow> nat \<Rightarrow> nat" where
  \<comment> \<open>Modelled from the spec: \<^verbatim>\<open>computeBergerCode\<close> of utils.ts, which is not part of the
      sources. Section 4.1: the width minus the number of one bits of the value masked to the
      width, truncated to \<^verbatim>\<open>ceil(log2(width + 1))\<close> bits.\<close>
  "computeBergerCode v width =
     (width - popcount (v AND (2 ^ width - 1))) mod 2 ^ ceilLog2 (width + 1)"

definition validateBergerCode :: "nat \<Rightarrow> nat \<Rightarrow> nat \<Rightarrow> error + unit" where
  \<comment> \<open>Modelled from the spec: \<^verbatim>\<open>validateBergerCode\<close> of utils.ts, which is not part of the
      sources. Section 4.1: recomputes the code and compares; a mismatch is an integrity
      error. The call sites in readPage pass the value, the code and the width only.\<close>
  "validateBergerCode v code width =
     (if computeBergerCode v width = code then Inr () else Inl BergerCodeError)"

section \<open>Objects\<close>

text \<open>
  The object layer (object.ts) is not part of the sources. Its types follow section 3 of the
  specification: an object has a key, a type, a fragment status and an optional payload.
\<close>

datatype ObjectType = DataLarge | CounterLarge | CounterSmall | Deleted | DataSmall | Link

datatype FragmentType = NoFragment | First | Next | Last

record NVMObject =
  key :: nat
  type :: ObjectType
  fragmentType :: FragmentType
  data :: "byte list option"

definition NVM3_OBJ_HEADER_SIZE_SMALL :: nat where
  \<comment> \<open>Modelled from the spec: the constants table of section 6 (object small header size).\<close>
  "NVM3_OBJ_HEADER_SIZE_SMALL = 4"

definition NVM3_WORD_SIZE :: nat where
  \<comment> \<open>Modelled from the spec: the constants table of section 6 (word alignment).\<close>
  "NVM3_WORD_SIZE = 4"

definition NVM_COUNTER_SIZE :: nat where
  \<comment> \<open>Modelled from the spec: the constant \<^verbatim>\<open>NVM_COUNTER_SIZE\<close> of consts.ts, which is not
      part of the sources. Section 4.5 gives the sum of the small header size and the counter
      size as 20, and section 6 the header size as 4.\<close>
  "NVM_COUNTER_SIZE = 16"

text \<open>
  The functions of the object layer that the page and image codecs call are parameters of the
  model: the theorems below that name an object layer \<^verbatim>\<open>m\<close> hold for whatever its functions
  compute. Each of the functions may raise.
\<close>

record ObjectLayer =
  readObjects :: "byte list \<Rightarrow> error + NVMObject list"
  writeObject :: "NVMObject \<Rightarrow> error + byte list"
  fragmentLargeObject :: "NVMObject \<Rightarrow> int \<Rightarrow> int \<Rightarrow> error + NVMObject list"

section \<open>Pages (page.ts)\<close>

definition NVM3_MIN_PAGE_SIZE :: nat where "NVM3_MIN_PAGE_SIZE = 512"
definition FLASH_MAX_PAGE_SIZE :: nat where "FLASH_MAX_PAGE_SIZE = 2048"
definition NVM3_PAGE_HEADER_SIZE :: nat where "NVM3_PAGE_HEADER_SIZE = 20"
definition NVM3_PAGE_COUNTER_SIZE :: nat where "NVM3_PAGE_COUNTER_SIZE = 27"
definition NVM3_PAGE_COUNTER_MASK :: nat where
  "NVM3_PAGE_COUNTER_MASK = push_bit NVM3_PAGE_COUNTER_SIZE 1 - 1"
definition NVM3_PAGE_MAGIC :: nat where "NVM3_PAGE_MAGIC = 0xb29a"

record PageHeader =
  offset :: nat
  version :: nat
  eraseCount :: nat
  status :: nat
  encrypted :: bool
  pageSize :: nat
  writeSize :: nat
  memoryMapped :: bool
  deviceFamily :: nat

definition PageStatus_OK :: nat where "PageStatus_OK = 0xffffffff"
definition PageStatus_OK_ErasePending :: nat where "PageStatus_OK_ErasePending = 0xffffa5a5"
definition PageStatus_Bad :: nat where "PageStatus_Bad = 0x0000ffff"
definition PageStatus_Bad_ErasePending :: nat where "PageStatus_Bad_ErasePending = 0x0000a5a5"

definition WRITE_SIZE_32 :: nat where "WRITE_SIZE_32 = 0"
definition WRITE_SIZE_16 :: nat where "WRITE_SIZE_16 = 1"

record NVMPage =
  header :: PageHeader
  objects :: "NVMObject list"

definition pageSizeToBits :: "nat \<Rightarrow> int option" where
  \<comment> \<open>\<^verbatim>\<open>Math.ceil(Math.log2(pageSize) - Math.log2(512))\<close>. For a positive integer the
      ceiling of the binary logarithm is computed exactly; for 0 the result is minus
      infinity, written \<^verbatim>\<open>None\<close>.\<close>
  "pageSizeToBits ps =
     (if ps = 0 then None else Some (int (ceilLog2 ps) - int (ceilLog2 NVM3_MIN_PAGE_SIZE)))"

definition pageSizeFromBits :: "nat \<Rightarrow> nat" where
  "pageSizeFromBits bits = NVM3_MIN_PAGE_SIZE * 2 ^ bits"

definition readPage :: "ObjectLayer \<Rightarrow> byte list \<Rightarrow> nat \<Rightarrow> error + (NVMPage \<times> nat)" where
  "readPage m buffer offs =
    bindE (readUInt16LE buffer offs) (\<lambda>vers.
    bindE (readUInt16LE buffer (offs + 2)) (\<lambda>magic.
    if magic \<noteq> NVM3_PAGE_MAGIC then Inl NotAValidPage
    else if vers \<noteq> 1 then Inl (UnsupportedPageVersion vers)
    else
    bindE (readUInt32LE buffer (offs + 4)) (\<lambda>ec.
    let eraseCountCode = drop_bit NVM3_PAGE_COUNTER_SIZE ec;
        eraseCnt = ec AND NVM3_PAGE_COUNTER_MASK in
    bindE (validateBergerCode eraseCnt eraseCountCode NVM3_PAGE_COUNTER_SIZE) (\<lambda>_.
    bindE (readUInt32LE buffer (offs + 8)) (\<lambda>eci.
    let eraseCountInvCode = drop_bit NVM3_PAGE_COUNTER_SIZE eci;
        eraseCountInv = eci AND NVM3_PAGE_COUNTER_MASK in
    bindE (validateBergerCode eraseCountInv eraseCountInvCode NVM3_PAGE_COUNTER_SIZE) (\<lambda>_.
    if int eraseCnt \<noteq> (NOT (int eraseCountInv) AND int NVM3_PAGE_COUNTER_MASK)
    then Inl InvalidEraseCount
    else
    bindE (readUInt32LE buffer (offs + 12)) (\<lambda>stat.
    bindE (readUInt16LE buffer (offs + 16)) (\<lambda>devInfo.
    let devFamily = devInfo AND 0x7ff;
        wrSize = drop_bit 11 devInfo AND 1;
        memMapped = (drop_bit 12 devInfo AND 1 \<noteq> 0);
        pgSize = pageSizeFromBits (drop_bit 13 devInfo AND 7);
        actualPageSize = min pgSize FLASH_MAX_PAGE_SIZE in
    if length buffer < offs + actualPageSize then Inl IncompletePage
    else
    bindE (readUInt16LE buffer (offs + 18)) (\<lambda>formatInfo.
    let encr = (formatInfo AND 1 = 0);
        hdr = \<lparr> offset = offs, version = vers, eraseCount = eraseCnt, status = stat,
                encrypted = encr, pageSize = pgSize, writeSize = wrSize,
                memoryMapped = memMapped, deviceFamily = devFamily \<rparr>;
        bytesRead = actualPageSize;
        dat = sliceBuffer buffer (offs + 20) (offs + bytesRead) in
    bindE (readObjects m dat) (\<lambda>objs.
    Inr (\<lparr> header = hdr, objects = objs \<rparr>, bytesRead)))))))))))"

definition writePageHeader :: "PageHeader \<Rightarrow> error + byte list" where
  \<comment> \<open>The argument of the source has no \<^verbatim>\<open>offset\<close> field; the model ignores it.\<close>
  "writePageHeader h =
    bindE (writeUInt16LE (int (version h))) (\<lambda>b0.
    bindE (writeUInt16LE (int NVM3_PAGE_MAGIC)) (\<lambda>b2.
    let eraseCnt = int (eraseCount h) AND int NVM3_PAGE_COUNTER_MASK;
        eraseCountCode = int (computeBergerCode (nat eraseCnt) NVM3_PAGE_COUNTER_SIZE);
        eraseCnt' = toInt32 (eraseCnt OR push_bit NVM3_PAGE_COUNTER_SIZE eraseCountCode) in
    bindE (writeInt32LE eraseCnt') (\<lambda>b4.
    let eraseCountInv = NOT (int (eraseCount h)) AND int NVM3_PAGE_COUNTER_MASK;
        eraseCountInvCode = int (computeBergerCode (nat eraseCountInv) NVM3_PAGE_COUNTER_SIZE);
        eraseCountInv' = toInt32 (eraseCountInv OR push_bit NVM3_PAGE_COUNTER_SIZE eraseCountInvCode) in
    bindE (writeInt32LE eraseCountInv') (\<lambda>b8.
    bindE (writeUInt32LE (int (status h))) (\<lambda>b12.
    let devInfo = toInt32
          ((int (deviceFamily h) AND 0x7ff)
           OR push_bit 11 (int (writeSize h) AND 1)
           OR push_bit 12 (if memoryMapped h then 1 else 0)
           OR (case pageSizeToBits (pageSize h) of None \<Rightarrow> 0 | Some bits \<Rightarrow> push_bit 13 bits)) in
    bindE (writeUInt16LE devInfo) (\<lambda>b16.
    let formatInfo = (if encrypted h then 0xfffe else 0xffff) in
    bindE (writeUInt16LE formatInfo) (\<lambda>b18.
    Inr (b0 @ b2 @ b4 @ b8 @ b12 @ b16 @ b18))))))))"

section \<open>Compaction\<close>

text \<open>
  A JavaScript \<^verbatim>\<open>Map\<close> iterates in insertion order: it is an association list in which
  \<^verbatim>\<open>set\<close> overwrites an existing key in place and appends a new one.
\<close>

type_synonym 'v jsmap = "(nat \<times> 'v) list"

fun mapSet :: "'v jsmap \<Rightarrow> nat \<Rightarrow> 'v \<Rightarrow> 'v jsmap" where
  "mapSet [] k v = [(k, v)]"
| "mapSet ((k', v') # rest) k v =
     (if k' = k then (k, v) # rest else (k', v') # mapSet rest k v)"

definition mapDelete :: "'v jsmap \<Rightarrow> nat \<Rightarrow> 'v jsmap" where
  "mapDelete mp k = filter (\<lambda>kv. fst kv \<noteq> k) mp"

definition mapValues :: "'v jsmap \<Rightarrow> 'v list" where
  "mapValues mp = map snd mp"

definition payload :: "NVMObject \<Rightarrow> byte list" where
  \<comment> \<open>\<^verbatim>\<open>obj.data\<close>, empty when absent.\<close>
  "payload obj = (case data obj of None \<Rightarrow> [] | Some d \<Rightarrow> d)"

definition compressStep ::
  "NVMObject jsmap \<times> NVMObject jsmap \<Rightarrow> NVMObject \<Rightarrow> NVMObject jsmap \<times> NVMObject jsmap" where
  \<comment> \<open>Modelled from the spec: one step of \<^verbatim>\<open>compressObjects\<close> of object.ts, which is not
      part of the sources. Section 4.6: a Deleted record removes the key; a small object or
      a complete large object is inserted or overwrites; the fragments of a large object are
      buffered per key from its first fragment until its last, and the reassembled object
      (the payloads concatenated in the order received) then overwrites the key. A first
      fragment discards an unfinished chain of the same key; a next or last fragment
      without a first one is ignored. The second component holds the unfinished chains:
      the first fragment with the payload received so far.\<close>
  "compressStep st obj =
     (let live = fst st; pending = snd st; k = key obj in
      if type obj = Deleted then (mapDelete live k, pending)
      else if type obj = DataSmall \<or> type obj = CounterSmall then (mapSet live k obj, pending)
      else if type obj = DataLarge \<or> type obj = CounterLarge then
        (case fragmentType obj of
           NoFragment \<Rightarrow> (mapSet live k obj, pending)
         | First \<Rightarrow> (live, mapSet pending k (obj\<lparr>data := Some (payload obj)\<rparr>))
         | Next \<Rightarrow>
             (case map_of pending k of
                None \<Rightarrow> (live, pending)
              | Some part \<Rightarrow>
                  (live, mapSet pending k (part\<lparr>data := Some (payload part @ payload obj)\<rparr>)))
         | Last \<Rightarrow>
             (case map_of pending k of
                None \<Rightarrow> (live, pending)
              | Some part \<Rightarrow>
                  (mapSet live k
                     (part\<lparr>fragmentType := NoFragment,
                           data := Some (payload part @ payload obj)\<rparr>),
                   mapDelete pending k)))
      else (live, pending))"

definition compressObjects :: "NVMObject list \<Rightarrow> NVMObject jsmap" where
  \<comment> \<open>Modelled from the spec: \<^verbatim>\<open>compressObjects\<close> of object.ts, which is not part of the
      sources. Section 4.6: the log is replayed in order, starting from the empty map.\<close>
  "compressObjects objs = fst (foldl compressStep ([], []) objs)"

section \<open>Parsing an image (parseNVM)\<close>

definition ZWAVE_APPLICATION_NVM_SIZE :: nat where
  "ZWAVE_APPLICATION_NVM_SIZE = 0x3000"

definition ZWAVE_PROTOCOL_NVM_SIZE :: nat where
  "ZWAVE_PROTOCOL_NVM_SIZE = 0xc000 - ZWAVE_APPLICATION_NVM_SIZE"

definition comparePages :: "NVMPage \<Rightarrow> NVMPage \<Rightarrow> int" where
  "comparePages p1 p2 =
     (if eraseCount (header p1) = eraseCount (header p2)
      then int (offset (header p1)) - int (offset (header p2))
      else int (eraseCount (header p1)) - int (eraseCount (header p2)))"

text \<open>
  \<^verbatim>\<open>Array.prototype.sort\<close> with a comparison function is a stable sort: each page is
  inserted, in the order of the array, behind the pages that do not compare greater.
\<close>

fun insertPage :: "NVMPage \<Rightarrow> NVMPage list \<Rightarrow> NVMPage list" where
  "insertPage p [] = [p]"
| "insertPage p (q # qs) =
     (if comparePages p q < 0 then p # q # qs else q # insertPage p qs)"

definition sortPages :: "NVMPage list \<Rightarrow> NVMPage list" where
  "sortPages ps = foldl (\<lambda>acc p. insertPage p acc) [] ps"

record ParsedNVM =
  applicationPages :: "NVMPage list"
  protocolPages :: "NVMPage list"
  applicationObjects :: "NVMObject jsmap"
  protocolObjects :: "NVMObject jsmap"

definition processPages :: "NVMPage list \<Rightarrow> ParsedNVM" where
  \<comment> \<open>Lines 55 to 96 of parseNVM: what happens to the pages once they are read.\<close>
  "processPages pgs =
     (let appPages = sortPages (filter (\<lambda>p. offset (header p) < ZWAVE_APPLICATION_NVM_SIZE) pgs);
          protoPages = sortPages (filter (\<lambda>p. offset (header p) \<ge> ZWAVE_APPLICATION_NVM_SIZE) pgs)
      in \<lparr> applicationPages = appPages,
           protocolPages = protoPages,
           applicationObjects = compressObjects (foldl (\<lambda>acc page. acc @ objects page) [] appPages),
           protocolObjects = compressObjects (foldl (\<lambda>acc page. acc @ objects page) [] protoPages) \<rparr>)"

lemma bindE_Inl [simp]: "bindE (Inl e) f = Inl e"
  by (simp add: bindE_def)

lemma bindE_Inr [simp]: "bindE (Inr x) f = f x"
  by (simp add: bindE_def)

lemma bindE_eq_Inr: "bindE r f = Inr y \<longleftrightarrow> (\<exists>x. r = Inr x \<and> f x = Inr y)"
  by (cases r) simp_all

lemma bindE_eq_Inl: "bindE r f = Inl e \<longleftrightarrow> r = Inl e \<or> (\<exists>x. r = Inr x \<and> f x = Inl e)"
  by (cases r) simp_all

lemma bindE_cong [fundef_cong]:
  "r = r' \<Longrightarrow> (\<And>x. r' = Inr x \<Longrightarrow> f x = f' x) \<Longrightarrow> bindE r f = bindE r' f'"
  by (cases r') simp_all

lemma pageSizeFromBits_ge: "512 \<le> pageSizeFromBits b"
  by (simp add: pageSizeFromBits_def NVM3_MIN_PAGE_SIZE_def)

lemma readPage_Inr:
  assumes "readPage m buffer offs = Inr (page, n)"
  shows "\<exists>ec eci stat devInfo formatInfo.
           readUInt16LE buffer offs = Inr 1
         \<and> readUInt16LE buffer (offs + 2) = Inr NVM3_PAGE_MAGIC
         \<and> readUInt32LE buffer (offs + 4) = Inr ec
         \<and> validateBergerCode (ec AND NVM3_PAGE_COUNTER_MASK)
              (drop_bit NVM3_PAGE_COUNTER_SIZE ec) NVM3_PAGE_COUNTER_SIZE = Inr ()
         \<and> readUInt32LE buffer (offs + 8) = Inr eci
         \<and> validateBergerCode (eci AND NVM3_PAGE_COUNTER_MASK)
              (drop_bit NVM3_PAGE_COUNTER_SIZE eci) NVM3_PAGE_COUNTER_SIZE = Inr ()
         \<and> int (ec AND NVM3_PAGE_COUNTER_MASK)
             = (NOT (int (eci AND NVM3_PAGE_COUNTER_MASK)) AND int NVM3_PAGE_COUNTER_MASK)
         \<and> readUInt32LE buffer (offs + 12) = Inr stat
         \<and> readUInt16LE buffer (offs + 16) = Inr devInfo
         \<and> readUInt16LE buffer (offs + 18) = Inr formatInfo
         \<and> n = min (pageSizeFromBits (drop_bit 13 devInfo AND 7)) FLASH_MAX_PAGE_SIZE
         \<and> offs + n \<le> length buffer
         \<and> readObjects m (sliceBuffer buffer (offs + 20) (offs + n)) = Inr (objects page)
         \<and> header page = \<lparr> offset = offs, version = 1,
                eraseCount = ec AND NVM3_PAGE_COUNTER_MASK,
                status = stat, encrypted = (formatInfo AND 1 = 0),
                pageSize = pageSizeFromBits (drop_bit 13 devInfo AND 7),
                writeSize = drop_bit 11 devInfo AND 1,
                memoryMapped = (drop_bit 12 devInfo AND 1 \<noteq> 0),
                deviceFamily = devInfo AND 0x7ff \<rparr>"
  using assms unfolding readPage_def Let_def
  by (auto simp: bindE_eq_Inr not_less split: if_splits)

lemma readPage_bytesRead:
  assumes "readPage m buffer offs = Inr (page, n)"
  shows "512 \<le> n" and "n \<le> 2048" and "offs + n \<le> length buffer"
    and "offset (header page) = offs"
    and "n = min (pageSize (header page)) FLASH_MAX_PAGE_SIZE"
proof -
  from readPage_Inr [OF assms] obtain devInfo where
    n: "n = min (pageSizeFromBits (drop_bit 13 devInfo AND 7)) FLASH_MAX_PAGE_SIZE"
    and le: "offs + n \<le> length buffer"
    and off: "offset (header page) = offs"
    and ps: "pageSize (header page) = pageSizeFromBits (drop_bit 13 devInfo AND 7)"
    by fastforce
  from n pageSizeFromBits_ge [of "drop_bit 13 devInfo AND 7"]
  show "512 \<le> n" "n \<le> 2048" by (simp_all add: FLASH_MAX_PAGE_SIZE_def)
  show "offs + n \<le> length buffer" by (rule le)
  show "offset (header page) = offs" by (rule off)
  show "n = min (pageSize (header page)) FLASH_MAX_PAGE_SIZE" using n ps by simp
qed

text \<open>
  The loop of parseNVM that walks the buffer: each page is read at the offset where the
  previous one ended. A page that is read consumes at least 512 bytes, so the loop ends.
\<close>

function readPages :: "ObjectLayer \<Rightarrow> byte list \<Rightarrow> nat \<Rightarrow> error + NVMPage list" where
  "readPages m buffer offs =
     (if offs < length buffer
      then bindE (readPage m buffer offs) (\<lambda>r.
           bindE (readPages m buffer (offs + snd r)) (\<lambda>rest.
           Inr (fst r # rest)))
      else Inr [])"
  by pat_completeness auto
termination
proof (relation "measure (\<lambda>(m, buffer, offs). length buffer - offs)")
  show "wf (measure (\<lambda>(m, buffer, offs). length buffer - offs))" by simp
next
  fix m buffer offs and r :: "NVMPage \<times> nat"
  assume lt: "offs < length buffer" and r: "readPage m buffer offs = Inr r"
  from r have "readPage m buffer offs = Inr (fst r, snd r)" by simp
  from readPage_bytesRead(1) [OF this] have "0 < snd r" by simp
  with lt show "((m, buffer, offs + snd r), (m, buffer, offs))
                  \<in> measure (\<lambda>(m, buffer, offs). length buffer - offs)"
    by simp
qed

declare readPages.simps [simp del]

definition parseNVM :: "ObjectLayer \<Rightarrow> byte list \<Rightarrow> error + ParsedNVM" where
  \<comment> \<open>The \<^verbatim>\<open>verbose\<close> flag only prints; the model leaves it out.\<close>
  "parseNVM m buffer = bindE (readPages m buffer 0) (\<lambda>pgs. Inr (processPages pgs))"

section \<open>Encoding an image (encodeNVM)\<close>

text \<open>
  The options of encodeNVM; an absent field takes its default. The page size is a natural
  number (the source accepts any JavaScript number).
\<close>

record EncodeNVMOptions =
  opt_pageSize :: "nat option"
  opt_deviceFamily :: "nat option"
  opt_writeSize :: "nat option"
  opt_memoryMapped :: "bool option"

definition createEmptyPage :: "nat \<Rightarrow> nat \<Rightarrow> nat \<Rightarrow> bool \<Rightarrow> error + byte list" where
  "createEmptyPage pgSize devFamily wrSize memMapped =
     (let ret = replicate pgSize (0xff :: byte) in
      bindE (writePageHeader \<lparr> offset = 0, version = 0x01, eraseCount = 0,
               status = PageStatus_OK, encrypted = False, pageSize = pgSize,
               writeSize = wrSize, memoryMapped = memMapped, deviceFamily = devFamily \<rparr>)
        (\<lambda>hdr. copy hdr ret 0))"

text \<open>
  The loop \<^verbatim>\<open>for (let i = 0; i < regionSize / pageSize; i++) pages.push(createEmptyPage())\<close>.
  For natural numbers \<^verbatim>\<open>i < regionSize / pageSize\<close> is \<^verbatim>\<open>i * pageSize < regionSize\<close>,
  also for the page size 0, where the quotient is infinite and the loop never ends: the
  result \<^verbatim>\<open>None\<close> is a call that does not return.
\<close>

partial_function (option) allocatePages ::
  "nat \<Rightarrow> nat \<Rightarrow> (error + byte list) \<Rightarrow> nat \<Rightarrow> byte list list \<Rightarrow> (error + byte list list) option"
where
  "allocatePages regionSize pgSize emptyPage i acc =
     (if i * pgSize < regionSize
      then (case emptyPage of
              Inl e \<Rightarrow> Some (Inl e)
            | Inr page \<Rightarrow> allocatePages regionSize pgSize emptyPage (i + 1) (acc @ [page]))
      else Some (Inr acc))"

text \<open>
  The state of writeObjects. \<^verbatim>\<open>currentPage\<close> is a reference to \<^verbatim>\<open>pages[pageIndex]\<close>:
  a write through it changes that element of \<^verbatim>\<open>pages\<close>.
\<close>

record WriterState =
  pages :: "byte list list"
  pageIndex :: int
  offsetInPage :: int
  remainingSpace :: int

definition currentPage :: "WriterState \<Rightarrow> byte list" where
  "currentPage s = pages s ! nat (pageIndex s)"

definition nextPage :: "nat \<Rightarrow> WriterState \<Rightarrow> error + WriterState" where
  "nextPage pgSize s =
     (let pageIndex' = pageIndex s + 1 in
      if pageIndex' \<ge> int (length (pages s)) then Inl NotEnoughPages
      else Inr (s\<lparr>pageIndex := pageIndex',
                  offsetInPage := int NVM3_PAGE_HEADER_SIZE,
                  remainingSpace := int pgSize - int NVM3_PAGE_HEADER_SIZE\<rparr>))"

definition incrementOffset :: "nat \<Rightarrow> nat \<Rightarrow> WriterState \<Rightarrow> WriterState" where
  "incrementOffset pgSize by s =
     (let alignedDelta = (int by + int NVM3_WORD_SIZE - 1) AND NOT (int NVM3_WORD_SIZE - 1);
          offsetInPage' = offsetInPage s + alignedDelta in
      s\<lparr>offsetInPage := offsetInPage', remainingSpace := int pgSize - offsetInPage'\<rparr>)"

text \<open>
  The inner loop over the fragments of one object; \<^verbatim>\<open>several\<close> is
  \<^verbatim>\<open>fragments.length > 1\<close>.
\<close>

fun writeFragments ::
  "ObjectLayer \<Rightarrow> nat \<Rightarrow> bool \<Rightarrow> NVMObject list \<Rightarrow> WriterState \<Rightarrow> error + WriterState" where
  "writeFragments m pgSize several [] s = Inr s"
| "writeFragments m pgSize several (fragment # rest) s =
     bindE (writeObject m fragment) (\<lambda>objBuffer.
     bindE (copy objBuffer (currentPage s) (offsetInPage s)) (\<lambda>page'.
     let s1 = s\<lparr>pages := (pages s)[nat (pageIndex s) := page']\<rparr>;
         s2 = incrementOffset pgSize (length objBuffer) s1 in
     if several
     then bindE (nextPage pgSize s2) (\<lambda>s3. writeFragments m pgSize several rest s3)
     else writeFragments m pgSize several rest s2))"

definition placeObject :: "ObjectLayer \<Rightarrow> nat \<Rightarrow> NVMObject \<Rightarrow> WriterState \<Rightarrow> error + WriterState" where
  \<comment> \<open>One round of the loop over \<^verbatim>\<open>objects.values()\<close>.\<close>
  "placeObject m pgSize obj s =
     (if type obj = Deleted then Inr s
      else if (type obj = CounterSmall
               \<and> remainingSpace s < int (NVM3_OBJ_HEADER_SIZE_SMALL + NVM_COUNTER_SIZE))
            \<or> (type obj = DataSmall
               \<and> remainingSpace s < int (NVM3_OBJ_HEADER_SIZE_SMALL + length (payload obj)))
      then bindE (nextPage pgSize s) (\<lambda>s'. writeFragments m pgSize False [obj] s')
      else if type obj = CounterLarge \<or> type obj = DataLarge
      then bindE (fragmentLargeObject m obj (remainingSpace s)
                    (int pgSize - int NVM3_PAGE_HEADER_SIZE)) (\<lambda>fragments.
           writeFragments m pgSize (length fragments > 1) fragments s)
      else writeFragments m pgSize False [obj] s)"

fun placeObjects ::
  "ObjectLayer \<Rightarrow> nat \<Rightarrow> NVMObject list \<Rightarrow> WriterState \<Rightarrow> error + WriterState" where
  "placeObjects m pgSize [] s = Inr s"
| "placeObjects m pgSize (obj # rest) s =
     bindE (placeObject m pgSize obj s) (\<lambda>s'. placeObjects m pgSize rest s')"

definition writeObjects ::
  "ObjectLayer \<Rightarrow> nat \<Rightarrow> byte list list \<Rightarrow> NVMObject jsmap \<Rightarrow> error + byte list list" where
  \<comment> \<open>The source changes the pages in place; the model returns them.\<close>
  "writeObjects m pgSize pgs objs =
     bindE (nextPage pgSize \<lparr>pages = pgs, pageIndex = - 1, offsetInPage = - 1,
                              remainingSpace = - 1\<rparr>) (\<lambda>s.
     bindE (placeObjects m pgSize (mapValues objs) s) (\<lambda>s'.
     Inr (pages s')))"

definition encodeNVM ::
  "ObjectLayer \<Rightarrow> NVMObject jsmap \<Rightarrow> NVMObject jsmap \<Rightarrow> EncodeNVMOptions option
     \<Rightarrow> (error + byte list) option" where
  "encodeNVM m applicationObjs protocolObjs options =
     (let pgSize = (case Option.bind options opt_pageSize of
                      None \<Rightarrow> FLASH_MAX_PAGE_SIZE | Some v \<Rightarrow> v);
          devFamily = (case Option.bind options opt_deviceFamily of
                      None \<Rightarrow> 2047 | Some v \<Rightarrow> v);
          wrSize = (case Option.bind options opt_writeSize of
                      None \<Rightarrow> WRITE_SIZE_16 | Some v \<Rightarrow> v);
          memMapped = (case Option.bind options opt_memoryMapped of
                      None \<Rightarrow> True | Some v \<Rightarrow> v);
          emptyPage = createEmptyPage pgSize devFamily wrSize memMapped
      in
      case allocatePages ZWAVE_APPLICATION_NVM_SIZE pgSize emptyPage 0 [] of
        None \<Rightarrow> None
      | Some (Inl e) \<Rightarrow> Some (Inl e)
      | Some (Inr appPages) \<Rightarrow>
      (case allocatePages ZWAVE_PROTOCOL_NVM_SIZE pgSize emptyPage 0 [] of
        None \<Rightarrow> None
      | Some (Inl e) \<Rightarrow> Some (Inl e)
      | Some (Inr protoPages) \<Rightarrow>
          Some (bindE (writeObjects m pgSize appPages applicationObjs) (\<lambda>appPages'.
                bindE (writeObjects m pgSize protoPages protocolObjs) (\<lambda>protoPages'.
                Inr (concat (appPages' @ protoPages')))))))"

section \<open>An object layer to run the codecs with\<close>

text \<open>
  The theorems below hold for every object layer. To run the page and image codecs on concrete
  images, this section gives one: an object is written as a header followed by its payload,
  the header being four bytes for a small or deleted object (a tag holding the type and the
  fragment status, the key in two bytes, the payload length) and eight bytes for a large
  one (tag, key, a zero byte, the payload length in two bytes, two zero bytes). A tag is
  never \<^verbatim>\<open>0xFF\<close>, so erased space is recognised by its first byte.
\<close>

definition typeCode :: "ObjectType \<Rightarrow> nat" where
  "typeCode t = (case t of DataLarge \<Rightarrow> 0 | CounterLarge \<Rightarrow> 1 | CounterSmall \<Rightarrow> 2
                 | Deleted \<Rightarrow> 3 | DataSmall \<Rightarrow> 7 | Link \<Rightarrow> 4)"

definition typeOfCode :: "nat \<Rightarrow> ObjectType option" where
  "typeOfCode c = (if c = 0 then Some DataLarge else if c = 1 then Some CounterLarge
                   else if c = 2 then Some CounterSmall else if c = 3 then Some Deleted
                   else if c = 7 then Some DataSmall else if c = 4 then Some Link else None)"

definition fragCode :: "FragmentType \<Rightarrow> nat" where
  "fragCode f = (case f of NoFragment \<Rightarrow> 0 | First \<Rightarrow> 1 | Next \<Rightarrow> 2 | Last \<Rightarrow> 3)"

definition fragOfCode :: "nat \<Rightarrow> FragmentType" where
  "fragOfCode c = (if c = 0 then NoFragment else if c = 1 then First
                   else if c = 2 then Next else Last)"

definition isLarge :: "NVMObject \<Rightarrow> bool" where
  "isLarge obj \<longleftrightarrow> type obj = DataLarge \<or> type obj = CounterLarge"

definition refWriteObject :: "NVMObject \<Rightarrow> error + byte list" where
  \<comment> \<open>Section 4.2 gives \<^verbatim>\<open>write_object\<close> no failure: every object is written, whatever the
      length of its payload.\<close>
  "refWriteObject obj =
     (let tag = of_nat (typeCode (type obj) + 8 * fragCode (fragmentType obj)) :: byte;
          k0 = of_nat (key obj) :: byte;
          k1 = of_nat (key obj div 256) :: byte;
          n = length (payload obj) in
      if isLarge obj
      then Inr ([tag, k0, k1, 0, of_nat n, of_nat (n div 256), 0, 0] @ payload obj)
      else Inr ([tag, k0, k1, of_nat n] @ payload obj))"

definition alignWord :: "nat \<Rightarrow> nat" where
  "alignWord n = ((n + 3) div 4) * 4"

function refReadObjects :: "byte list \<Rightarrow> error + NVMObject list" where
  "refReadObjects body =
     (if length body < 4 \<or> hd body = 0xff then Inr []
      else
        let tag = unat (hd body);
            k = unat (body ! 1) + 256 * unat (body ! 2) in
        case typeOfCode (tag mod 8) of
          None \<Rightarrow> Inl (ObjectError k)
        | Some t \<Rightarrow>
            let large = (t = DataLarge \<or> t = CounterLarge);
                hsize = (if large then 8 else 4);
                n = (if large then unat (body ! 4) + 256 * unat (body ! 5) else unat (body ! 3));
                obj = \<lparr> key = k, type = t, fragmentType = fragOfCode (tag div 8),
                        data = (if t = Deleted then None
                                else Some (take n (drop hsize body))) \<rparr>
            in if length body < hsize + n then Inl (ObjectError k)
               else bindE (refReadObjects (drop (alignWord (hsize + n)) body))
                      (\<lambda>rest. Inr (obj # rest)))"
  by pat_completeness auto
termination
  by (relation "measure length") (auto simp: alignWord_def)

declare refReadObjects.simps [simp del]

fun chunks :: "nat \<Rightarrow> byte list \<Rightarrow> byte list list" where
  "chunks n [] = []"
| "chunks n (x # xs) =
     (if n = 0 then [x # xs] else take n (x # xs) # chunks n (drop n (x # xs)))"

definition refFragmentLargeObject :: "NVMObject \<Rightarrow> int \<Rightarrow> int \<Rightarrow> error + NVMObject list" where
  \<comment> \<open>Modelled from the spec: \<^verbatim>\<open>fragmentLargeObject\<close> of object.ts, which is not part of the
      sources. Section 4.2: an object that fits \<^verbatim>\<open>first_fit\<close> with its header (eight bytes
      for a large object) is returned whole; otherwise the payload is split so that the
      first fragment fits \<^verbatim>\<open>first_fit\<close> bytes and each later one \<^verbatim>\<open>subsequent_fit\<close> bytes,
      header included, with the statuses first, next, ..., last. The caller must not call
      it when not even a header and one byte of payload fit: such a call fails.\<close>
  "refFragmentLargeObject obj firstFit subsequentFit =
     (let d = payload obj in
      if 8 + int (length d) \<le> firstFit then Inr [obj]
      else if firstFit \<le> 8 \<or> subsequentFit \<le> 8 then Inl (ObjectError (key obj))
      else
        let n1 = nat (firstFit - 8);
            parts = take n1 d # chunks (nat (subsequentFit - 8)) (drop n1 d);
            frag = (\<lambda>st p. obj\<lparr>fragmentType := st, data := Some p\<rparr>)
        in Inr (frag First (hd parts)
                # map (frag Next) (butlast (tl parts))
                @ [frag Last (last parts)]))"

definition refLayer :: ObjectLayer where
  "refLayer = \<lparr> readObjects = refReadObjects, writeObject = refWriteObject,
                fragmentLargeObject = refFragmentLargeObject \<rparr>"

lemma alloc_cond: "0 < ps \<Longrightarrow> i * ps < R \<longleftrightarrow> i < (R + ps - 1) div ps" for i ps R :: nat
proof -
  assume ps: "0 < ps"
  have "i < (R + ps - 1) div ps \<longleftrightarrow> Suc i \<le> (R + ps - 1) div ps" by auto
  also have "\<dots> \<longleftrightarrow> Suc i * ps \<le> R + ps - 1"
    using ps by (simp add: less_eq_div_iff_mult_less_eq)
  also have "\<dots> \<longleftrightarrow> i * ps < R" using ps by auto
  finally show ?thesis by simp
qed

lemma allocatePages_Inr:
  assumes ps: "0 < ps"
  shows "allocatePages R ps (Inr page) i acc
           = Some (Inr (acc @ replicate ((R + ps - 1) div ps - i) page))"
proof (induction "(R + ps - 1) div ps - i" arbitrary: i acc)
  case 0
  then have "\<not> i * ps < R" using alloc_cond [OF ps, of i R] by simp
  with 0 show ?case by (subst allocatePages.simps) simp
next
  case (Suc k)
  then have lt: "i * ps < R" using alloc_cond [OF ps, of i R] by simp
  from Suc have k: "k = (R + ps - 1) div ps - (i + 1)" by simp
  have "allocatePages R ps (Inr page) i acc = allocatePages R ps (Inr page) (i + 1) (acc @ [page])"
    using lt by (subst allocatePages.simps) simp
  also have "\<dots> = Some (Inr ((acc @ [page]) @ replicate ((R + ps - 1) div ps - (i + 1)) page))"
    by (rule Suc.hyps(1) [OF k])
  also have "(acc @ [page]) @ replicate ((R + ps - 1) div ps - (i + 1)) page
             = acc @ replicate ((R + ps - 1) div ps - i) page"
    using Suc.hyps(2) k by (simp add: replicate_app_Cons_same flip: replicate_Suc)
  finally show ?case .
qed

lemma allocatePages_Inl:
  "0 < R \<Longrightarrow> allocatePages R ps (Inl e) 0 acc = Some (Inl e)"
  by (subst allocatePages.simps) simp

lemma copy_length: "copy src target start = Inr t \<Longrightarrow> length t = length target"
  by (auto simp: copy_def Let_def split: if_splits)

lemma createEmptyPage_length:
  "createEmptyPage ps df ws mm = Inr page \<Longrightarrow> length page = ps"
  by (auto simp: createEmptyPage_def Let_def bindE_eq_Inr dest!: copy_length)

lemma berger_zero: "computeBergerCode 0 27 = 27"
  by (simp add: computeBergerCode_def popcount.simps ceilLog2.simps)

lemma popcount_mask27: "popcount 134217727 = 27"
  by (simp add: popcount.simps)

lemma berger_mask: "computeBergerCode 134217727 27 = 0"
  by (simp add: computeBergerCode_def popcount_mask27 ceilLog2.simps)

lemma ceilLog2_le_iff: "ceilLog2 n \<le> k \<longleftrightarrow> n \<le> 2 ^ k"
proof (induction n arbitrary: k rule: ceilLog2.induct)
  case (1 n)
  show ?case
  proof (cases "n \<le> 1")
    case True
    then show ?thesis by (subst ceilLog2.simps) (auto intro: order_trans [of _ 1])
  next
    case False
    show ?thesis
    proof (cases k)
      case 0
      with False show ?thesis by (subst ceilLog2.simps) simp
    next
      case (Suc j)
      have "ceilLog2 n \<le> Suc j \<longleftrightarrow> ceilLog2 ((n + 1) div 2) \<le> j"
        using False by (subst ceilLog2.simps) simp
      also have "\<dots> \<longleftrightarrow> (n + 1) div 2 \<le> 2 ^ j" using 1 [OF False] .
      also have "\<dots> \<longleftrightarrow> n \<le> 2 ^ Suc j" by auto
      finally show ?thesis using Suc by simp
    qed
  qed
qed

lemma ceilLog2_512: "ceilLog2 512 = 9"
  by (simp add: ceilLog2.simps)

lemma pageSizeToBits_range:
  assumes "257 \<le> ps" "ps \<le> 65536"
  shows "\<exists>bits. pageSizeToBits ps = Some (int bits) \<and> bits \<le> 7 \<and> ps \<le> 512 * 2 ^ bits"
proof -
  have "\<not> ceilLog2 ps \<le> 8" using assms(1) by (simp add: ceilLog2_le_iff)
  moreover have "ceilLog2 ps \<le> 16" using assms(2) by (simp add: ceilLog2_le_iff)
  ultimately have "ceilLog2 ps = 9 + (ceilLog2 ps - 9) \<and> ceilLog2 ps - 9 \<le> 7" by linarith
  then obtain b where b: "ceilLog2 ps = 9 + b" "b \<le> 7" by blast
  have "ps \<le> 2 ^ (9 + b)" using b(1) ceilLog2_le_iff [of ps "9 + b"] by simp
  then have "ps \<le> 512 * 2 ^ b" by (simp add: power_add)
  with b assms show ?thesis
    by (auto simp: pageSizeToBits_def NVM3_MIN_PAGE_SIZE_def ceilLog2_512)
qed

lemma toInt32_id: "- 2147483648 \<le> x \<Longrightarrow> x < 2147483648 \<Longrightarrow> toInt32 x = x"
  by (simp add: toInt32_def)

lemma toInt32_range: "- 2147483648 \<le> toInt32 x \<and> toInt32 x \<le> 2147483647"
  unfolding toInt32_def
  using pos_mod_bound [of 4294967296 "x + 2147483648"] pos_mod_sign [of 4294967296 "x + 2147483648"]
  by linarith

lemma writeInt32LE_toInt32:
  "writeInt32LE (toInt32 x) = Inr [word_of_int (toInt32 x), word_of_int (drop_bit 8 (toInt32 x)),
      word_of_int (drop_bit 16 (toInt32 x)), word_of_int (drop_bit 24 (toInt32 x))]"
  using toInt32_range [of x] by (simp add: writeInt32LE_def)

lemma devInfo_range:
  fixes df ws bits :: nat and mm :: bool
  assumes "bits \<le> 7"
  defines "d \<equiv> (int df AND 0x7ff) OR push_bit 11 (int ws AND 1)
                OR push_bit 12 (if mm then 1 else 0) OR push_bit 13 (int bits)"
  shows "0 \<le> d" and "d < 65536"
proof -
  have a: "int df AND 0x7ff < 2 ^ 16"
    using AND_upper2 [of 2047 "int df"] by simp
  have "int ws AND 1 \<le> 1" using AND_upper2 [of 1 "int ws"] by simp
  moreover have "0 \<le> int ws AND 1" by simp
  ultimately have b: "push_bit 11 (int ws AND 1) < 2 ^ 16"
    by (simp add: push_bit_eq_mult)
  have c: "push_bit 12 (if mm then 1 else 0 :: int) < 2 ^ 16" by simp
  have e: "push_bit 13 (int bits) < 2 ^ 16" using assms(1) by (simp add: push_bit_eq_mult)
  have n1: "0 \<le> (int df AND 0x7ff)" by simp
  have n2: "0 \<le> push_bit 11 (int ws AND 1)" by simp
  have n3: "0 \<le> push_bit 12 (if mm then 1 else 0 :: int)" by simp
  have "d < 2 ^ 16" unfolding d_def
    by (intro OR_upper n1 n2 n3 a b c e)
  then show "d < 65536" by simp
  show "0 \<le> d" unfolding d_def by simp
qed

lemma writePageHeader_length: "writePageHeader h = Inr hdr \<Longrightarrow> length hdr = 20"
  unfolding writePageHeader_def Let_def
  by (auto simp: bindE_eq_Inr writeUInt16LE_def writeUInt32LE_def writeInt32LE_def split: if_splits)

lemma createEmptyPage_ok:
  assumes "257 \<le> ps" "ps \<le> 65536"
  shows "\<exists>page. createEmptyPage ps df ws mm = Inr page \<and> length page = ps"
proof -
  from pageSizeToBits_range [OF assms] obtain bits where
    bits: "pageSizeToBits ps = Some (int bits)" "bits \<le> 7" by blast
  let ?d = "(int df AND 0x7ff) OR push_bit 11 (int ws AND 1)
                OR push_bit 12 (if mm then 1 else 0) OR push_bit 13 (int bits)"
  have d: "0 \<le> ?d" "?d < 65536" using devInfo_range [OF bits(2), of df ws mm] by auto
  then have t: "toInt32 ?d = ?d" by (intro toInt32_id) linarith+
  have "\<exists>hdr. writePageHeader \<lparr> offset = 0, version = 0x01, eraseCount = 0,
               status = PageStatus_OK, encrypted = False, pageSize = ps,
               writeSize = ws, memoryMapped = mm, deviceFamily = df \<rparr> = Inr hdr"
    unfolding writePageHeader_def Let_def
    using d t by (simp add: bits writeInt32LE_toInt32 writeUInt16LE_def writeUInt32LE_def
        NVM3_PAGE_MAGIC_def PageStatus_OK_def)
  then obtain hdr where "writePageHeader \<lparr> offset = 0, version = 0x01, eraseCount = 0,
               status = PageStatus_OK, encrypted = False, pageSize = ps,
               writeSize = ws, memoryMapped = mm, deviceFamily = df \<rparr> = Inr hdr" by blast
  then have "\<exists>page. createEmptyPage ps df ws mm = Inr page"
    by (simp add: createEmptyPage_def copy_def Let_def)
  then show ?thesis using createEmptyPage_length by blast
qed

lemma nextPage_Inr:
  "nextPage ps s = Inr s' \<longleftrightarrow>
     pageIndex s + 1 < int (length (pages s)) \<and>
     s' = s\<lparr>pageIndex := pageIndex s + 1, offsetInPage := 20, remainingSpace := int ps - 20\<rparr>"
  by (auto simp: nextPage_def Let_def NVM3_PAGE_HEADER_SIZE_def)

lemma nextPage_Inl:
  "nextPage ps s = Inl e \<longleftrightarrow> int (length (pages s)) \<le> pageIndex s + 1 \<and> e = NotEnoughPages"
  by (auto simp: nextPage_def Let_def)

lemma incrementOffset_pages [simp]: "pages (incrementOffset ps by s) = pages s"
  by (simp add: incrementOffset_def Let_def)

lemma incrementOffset_pageIndex [simp]: "pageIndex (incrementOffset ps by s) = pageIndex s"
  by (simp add: incrementOffset_def Let_def)

lemma writeFragments_lengths:
  "writeFragments m ps sev frs s = Inr s' \<Longrightarrow> map length (pages s') = map length (pages s)"
proof (induction frs arbitrary: s)
  case Nil
  then show ?case by simp
next
  case (Cons f frs)
  from Cons.prems obtain buf page' where
    w: "writeObject m f = Inr buf" and
    c: "copy buf (currentPage s) (offsetInPage s) = Inr page'" and
    r: "(if sev
         then bindE (nextPage ps (incrementOffset ps (length buf)
                (s\<lparr>pages := (pages s)[nat (pageIndex s) := page']\<rparr>)))
                (\<lambda>s3. writeFragments m ps sev frs s3)
         else writeFragments m ps sev frs (incrementOffset ps (length buf)
                (s\<lparr>pages := (pages s)[nat (pageIndex s) := page']\<rparr>))) = Inr s'"
    by (auto simp: bindE_eq_Inr Let_def)
  let ?s2 = "incrementOffset ps (length buf) (s\<lparr>pages := (pages s)[nat (pageIndex s) := page']\<rparr>)"
  have len: "length page' = length (currentPage s)" using copy_length [OF c] .
  have upd: "map length (pages ?s2) = map length (pages s)"
    using len by (simp add: currentPage_def map_update list_update_same_conv)
       (metis list_update_beyond list_update_id map_update not_le_imp_less nth_map length_map)
  show ?case
  proof (cases sev)
    case True
    with r obtain s3 where n: "nextPage ps ?s2 = Inr s3" and w3: "writeFragments m ps sev frs s3 = Inr s'"
      by (auto simp: bindE_eq_Inr)
    from n have "pages s3 = pages ?s2" by (auto simp: nextPage_Inr)
    with Cons.IH [OF w3] upd show ?thesis by simp
  next
    case False
    with r have "writeFragments m ps sev frs ?s2 = Inr s'" by simp
    from Cons.IH [OF this] upd show ?thesis by simp
  qed
qed

lemma placeObject_lengths:
  "placeObject m ps obj s = Inr s' \<Longrightarrow> map length (pages s') = map length (pages s)"
  unfolding placeObject_def
  by (auto simp: bindE_eq_Inr nextPage_Inr simp del: writeFragments.simps
        split: if_splits dest!: writeFragments_lengths)

lemma placeObjects_lengths:
  "placeObjects m ps objs s = Inr s' \<Longrightarrow> map length (pages s') = map length (pages s)"
  by (induction objs arbitrary: s) (auto simp: bindE_eq_Inr dest!: placeObject_lengths)

lemma writeObjects_lengths:
  "writeObjects m ps pgs objs = Inr pgs' \<Longrightarrow> map length pgs' = map length pgs"
  unfolding writeObjects_def
  by (auto simp: bindE_eq_Inr nextPage_Inr dest!: placeObjects_lengths)

lemma writeObjects_empty:
  "pgs \<noteq> [] \<Longrightarrow> writeObjects m ps pgs [] = Inr pgs"
  by (cases pgs) (simp_all add: writeObjects_def nextPage_def Let_def mapValues_def)

lemma length_concat_uniform:
  "map length xs = replicate n k \<Longrightarrow> length (concat xs) = n * k"
proof (induction xs arbitrary: n)
  case Nil
  then show ?case by simp
next
  case (Cons x xs)
  then obtain n' where n: "n = Suc n'" by (cases n) auto
  with Cons.prems have "length x = k" "map length xs = replicate n' k" by auto
  with Cons.IH [of n'] n show ?case by simp
qed

definition pagesFor :: "nat \<Rightarrow> nat \<Rightarrow> nat" where
  \<comment> \<open>How often the allocation loop of encodeNVM runs for a region: the quotient rounded up.\<close>
  "pagesFor regionSize pgSize = (regionSize + pgSize - 1) div pgSize"

lemma encodeNVM_unfold:
  fixes options :: "EncodeNVMOptions option"
  defines "ps \<equiv> (case Option.bind options opt_pageSize of None \<Rightarrow> FLASH_MAX_PAGE_SIZE | Some v \<Rightarrow> v)"
  defines "df \<equiv> (case Option.bind options opt_deviceFamily of None \<Rightarrow> 2047 | Some v \<Rightarrow> v)"
  defines "ws \<equiv> (case Option.bind options opt_writeSize of None \<Rightarrow> WRITE_SIZE_16 | Some v \<Rightarrow> v)"
  defines "mm \<equiv> (case Option.bind options opt_memoryMapped of None \<Rightarrow> True | Some v \<Rightarrow> v)"
  assumes range: "257 \<le> ps" "ps \<le> 65536"
  shows "\<exists>e. createEmptyPage ps df ws mm = Inr e \<and> length e = ps \<and>
     encodeNVM m A P options =
       Some (bindE (writeObjects m ps (replicate (pagesFor ZWAVE_APPLICATION_NVM_SIZE ps) e) A) (\<lambda>app.
             bindE (writeObjects m ps (replicate (pagesFor ZWAVE_PROTOCOL_NVM_SIZE ps) e) P) (\<lambda>proto.
             Inr (concat (app @ proto)))))"
proof -
  from createEmptyPage_ok [OF range] obtain e where
    e: "createEmptyPage ps df ws mm = Inr e" "length e = ps" by blast
  have pos: "0 < ps" using range by simp
  have "encodeNVM m A P options =
       Some (bindE (writeObjects m ps (replicate (pagesFor ZWAVE_APPLICATION_NVM_SIZE ps) e) A) (\<lambda>app.
             bindE (writeObjects m ps (replicate (pagesFor ZWAVE_PROTOCOL_NVM_SIZE ps) e) P) (\<lambda>proto.
             Inr (concat (app @ proto)))))"
    unfolding encodeNVM_def Let_def
    unfolding ps_def [symmetric] df_def [symmetric] ws_def [symmetric] mm_def [symmetric]
    by (simp add: e allocatePages_Inr [OF pos] pagesFor_def)
  with e show ?thesis by blast
qed


lemma pagesFor_default:
  "pagesFor ZWAVE_APPLICATION_NVM_SIZE 2048 = 6" "pagesFor ZWAVE_PROTOCOL_NVM_SIZE 2048 = 18"
  by (simp_all add: pagesFor_def ZWAVE_APPLICATION_NVM_SIZE_def ZWAVE_PROTOCOL_NVM_SIZE_def)

lemma encodeNVM_empty:
  fixes options :: "EncodeNVMOptions option"
  defines "ps \<equiv> (case Option.bind options opt_pageSize of None \<Rightarrow> FLASH_MAX_PAGE_SIZE | Some v \<Rightarrow> v)"
  assumes range: "257 \<le> ps" "ps \<le> 65536"
  shows "map_option (map_sum id length) (encodeNVM m [] [] options)
         = Some (Inr ((pagesFor ZWAVE_APPLICATION_NVM_SIZE ps + pagesFor ZWAVE_PROTOCOL_NVM_SIZE ps) * ps))"
proof -
  from encodeNVM_unfold [of options m "[]" "[]"] range obtain e where
    e: "length e = ps" and
    u: "encodeNVM m [] [] options =
       Some (bindE (writeObjects m ps (replicate (pagesFor ZWAVE_APPLICATION_NVM_SIZE ps) e) []) (\<lambda>app.
             bindE (writeObjects m ps (replicate (pagesFor ZWAVE_PROTOCOL_NVM_SIZE ps) e) []) (\<lambda>proto.
             Inr (concat (app @ proto)))))"
    unfolding ps_def by blast
  have pos: "0 < pagesFor ZWAVE_APPLICATION_NVM_SIZE ps" "0 < pagesFor ZWAVE_PROTOCOL_NVM_SIZE ps"
    using range by (simp_all add: pagesFor_def ZWAVE_APPLICATION_NVM_SIZE_def
        ZWAVE_PROTOCOL_NVM_SIZE_def div_greater_zero_iff)
  then have ne: "replicate (pagesFor ZWAVE_APPLICATION_NVM_SIZE ps) e \<noteq> []"
    "replicate (pagesFor ZWAVE_PROTOCOL_NVM_SIZE ps) e \<noteq> []" by auto
  show ?thesis
    unfolding u by (simp add: writeObjects_empty [OF ne(1)] writeObjects_empty [OF ne(2)]
        length_concat sum_list_replicate e algebra_simps)
qed

lemma encodeNVM_returns:
  fixes options :: "EncodeNVMOptions option"
  defines "ps \<equiv> (case Option.bind options opt_pageSize of None \<Rightarrow> FLASH_MAX_PAGE_SIZE | Some v \<Rightarrow> v)"
  assumes range: "257 \<le> ps" "ps \<le> 65536"
  shows "\<exists>r. encodeNVM m A P options = Some r"
  using encodeNVM_unfold [of options m A P] range unfolding ps_def by blast

lemma encodeNVM_empty_ex:
  fixes options :: "EncodeNVMOptions option"
  defines "ps \<equiv> (case Option.bind options opt_pageSize of None \<Rightarrow> FLASH_MAX_PAGE_SIZE | Some v \<Rightarrow> v)"
  assumes range: "257 \<le> ps" "ps \<le> 65536"
  shows "\<exists>buf. encodeNVM m [] [] options = Some (Inr buf)"
proof -
  from encodeNVM_empty [of options m] range
  have "map_option (map_sum id length) (encodeNVM m [] [] options)
         = Some (Inr ((pagesFor ZWAVE_APPLICATION_NVM_SIZE ps + pagesFor ZWAVE_PROTOCOL_NVM_SIZE ps) * ps))"
    unfolding ps_def by blast
  then show ?thesis
    by (cases "encodeNVM m [] [] options") (auto simp: map_sum_def split: sum.splits)
qed

text \<open>
  C1 (as amended). A call of encodeNVM with default options ends, and a buffer it returns is
  the bytes of the application region followed by the bytes of the protocol region: the six
  application pages and the eighteen protocol pages as writeObjects leaves them. The
  application region is 0x3000 bytes, the protocol region 0x9000 bytes
  (\<^verbatim>\<open>0xc000 - ZWAVE_APPLICATION_NVM_SIZE\<close>), and the buffer 0xC000 bytes in all.
\<close>

theorem encodeNVM_default_regions:
  "(\<exists>r. encodeNVM m A P None = Some r) \<and>
   (\<forall>buf. encodeNVM m A P None = Some (Inr buf) \<longrightarrow>
      (\<exists>e app proto.
         createEmptyPage FLASH_MAX_PAGE_SIZE 2047 WRITE_SIZE_16 True = Inr e
       \<and> writeObjects m FLASH_MAX_PAGE_SIZE (replicate 6 e) A = Inr app
       \<and> writeObjects m FLASH_MAX_PAGE_SIZE (replicate 18 e) P = Inr proto
       \<and> buf = concat app @ concat proto
       \<and> length (concat app) = ZWAVE_APPLICATION_NVM_SIZE
       \<and> ZWAVE_APPLICATION_NVM_SIZE = 0x3000
       \<and> length (concat proto) = ZWAVE_PROTOCOL_NVM_SIZE
       \<and> ZWAVE_PROTOCOL_NVM_SIZE = 0x9000
       \<and> length buf = 0xC000))"
proof (intro conjI allI impI)
  show "\<exists>r. encodeNVM m A P None = Some r"
    using encodeNVM_returns [of None m A P] by (simp add: FLASH_MAX_PAGE_SIZE_def)
next
  fix buf
  assume enc: "encodeNVM m A P None = Some (Inr buf)"
  from encodeNVM_unfold [of None m A P] obtain e where
    e: "createEmptyPage FLASH_MAX_PAGE_SIZE 2047 WRITE_SIZE_16 True = Inr e"
      "length e = 2048" and
    u: "encodeNVM m A P None =
       Some (bindE (writeObjects m FLASH_MAX_PAGE_SIZE (replicate 6 e) A) (\<lambda>app.
             bindE (writeObjects m FLASH_MAX_PAGE_SIZE (replicate 18 e) P) (\<lambda>proto.
             Inr (concat (app @ proto)))))"
    using pagesFor_default by (auto simp: FLASH_MAX_PAGE_SIZE_def)
  from u enc have "bindE (writeObjects m FLASH_MAX_PAGE_SIZE (replicate 6 e) A) (\<lambda>app.
             bindE (writeObjects m FLASH_MAX_PAGE_SIZE (replicate 18 e) P) (\<lambda>proto.
             Inr (concat (app @ proto)))) = Inr buf" by simp
  then obtain app proto where
    a: "writeObjects m FLASH_MAX_PAGE_SIZE (replicate 6 e) A = Inr app" and
    p: "writeObjects m FLASH_MAX_PAGE_SIZE (replicate 18 e) P = Inr proto" and
    b: "buf = concat app @ concat proto"
    by (auto simp: bindE_eq_Inr)
  have la: "length (concat app) = 6 * 2048"
    using writeObjects_lengths [OF a] e(2) by (intro length_concat_uniform) simp
  have lp: "length (concat proto) = 18 * 2048"
    using writeObjects_lengths [OF p] e(2) by (intro length_concat_uniform) simp
  show "\<exists>e app proto.
         createEmptyPage FLASH_MAX_PAGE_SIZE 2047 WRITE_SIZE_16 True = Inr e
       \<and> writeObjects m FLASH_MAX_PAGE_SIZE (replicate 6 e) A = Inr app
       \<and> writeObjects m FLASH_MAX_PAGE_SIZE (replicate 18 e) P = Inr proto
       \<and> buf = concat app @ concat proto
       \<and> length (concat app) = ZWAVE_APPLICATION_NVM_SIZE
       \<and> ZWAVE_APPLICATION_NVM_SIZE = 0x3000
       \<and> length (concat proto) = ZWAVE_PROTOCOL_NVM_SIZE
       \<and> ZWAVE_PROTOCOL_NVM_SIZE = 0x9000
       \<and> length buf = 0xC000"
    using e(1) a p b la lp
    by (intro exI [of _ e] exI [of _ app] exI [of _ proto])
       (simp add: ZWAVE_APPLICATION_NVM_SIZE_def ZWAVE_PROTOCOL_NVM_SIZE_def)
qed

theorem encodeNVM_default_regions_witness:
  "\<exists>buf. encodeNVM refLayer [] [] None = Some (Inr buf) \<and> length buf = 0xC000"
proof -
  from encodeNVM_empty_ex [of None refLayer] obtain buf where
    b: "encodeNVM refLayer [] [] None = Some (Inr buf)"
    by (auto simp: FLASH_MAX_PAGE_SIZE_def)
  with encodeNVM_default_regions [of refLayer "[]" "[]"] have "length buf = 0xC000" by blast
  with b show ?thesis by blast
qed

theorem encodeNVM_default_length_counterexample:
  "map_option (map_sum id length) (encodeNVM refLayer [] [] None) = Some (Inr 0xC000)
   \<and> map_option (map_sum id length) (encodeNVM refLayer [] [] None) \<noteq> Some (Inr 0xF000)"
proof -
  have "map_option (map_sum id length) (encodeNVM refLayer [] [] None) = Some (Inr 0xC000)"
    using encodeNVM_empty [of None refLayer] pagesFor_default
    by (simp add: FLASH_MAX_PAGE_SIZE_def)
  then show ?thesis by (simp only: option.inject sum.inject) simp
qed

text \<open>
  C2 (as amended). encodeNVM does not check that the page size divides the region sizes, and
  it has no error for an invalid option. For every page size from 257 to 65536, whether it
  divides the region sizes or not: with empty maps encodeNVM returns a buffer; and every
  buffer it returns is the application pages followed by the protocol pages, where the
  application pages are the quotient of the application region size (0x3000) by the page
  size, rounded up, of fresh pages written with the application objects, the protocol pages
  the quotient of the protocol region size (0x9000) by the page size, rounded up, of fresh
  pages written with the protocol objects, and every page has the page size.
\<close>

theorem encodeNVM_page_size_unchecked:
  fixes options :: "EncodeNVMOptions option"
  defines "df \<equiv> (case Option.bind options opt_deviceFamily of None \<Rightarrow> 2047 | Some v \<Rightarrow> v)"
  defines "ws \<equiv> (case Option.bind options opt_writeSize of None \<Rightarrow> WRITE_SIZE_16 | Some v \<Rightarrow> v)"
  defines "mm \<equiv> (case Option.bind options opt_memoryMapped of None \<Rightarrow> True | Some v \<Rightarrow> v)"
  assumes "Option.bind options opt_pageSize = Some ps" and "257 \<le> ps" and "ps \<le> 65536"
  shows "(\<exists>buf. encodeNVM m [] [] options = Some (Inr buf))
       \<and> (\<forall>buf. encodeNVM m A P options = Some (Inr buf) \<longrightarrow>
            (\<exists>page app proto.
                createEmptyPage ps df ws mm = Inr page \<and> length page = ps
              \<and> writeObjects m ps (replicate ((0x3000 + ps - 1) div ps) page) A = Inr app
              \<and> writeObjects m ps (replicate ((0x9000 + ps - 1) div ps) page) P = Inr proto
              \<and> buf = concat app @ concat proto
              \<and> length app = (0x3000 + ps - 1) div ps
              \<and> length proto = (0x9000 + ps - 1) div ps
              \<and> (\<forall>pg\<in>set (app @ proto). length pg = ps)
              \<and> length (concat app) = ((0x3000 + ps - 1) div ps) * ps
              \<and> length (concat proto) = ((0x9000 + ps - 1) div ps) * ps))"
proof (intro conjI allI impI)
  show "\<exists>buf. encodeNVM m [] [] options = Some (Inr buf)"
    using encodeNVM_empty_ex [of options m] assms(4-6) by simp
next
  fix buf
  assume enc: "encodeNVM m A P options = Some (Inr buf)"
  have pa: "pagesFor ZWAVE_APPLICATION_NVM_SIZE ps = (0x3000 + ps - 1) div ps"
    and pp: "pagesFor ZWAVE_PROTOCOL_NVM_SIZE ps = (0x9000 + ps - 1) div ps"
    by (simp_all add: pagesFor_def ZWAVE_APPLICATION_NVM_SIZE_def ZWAVE_PROTOCOL_NVM_SIZE_def)
  from encodeNVM_unfold [of options m A P] assms(4-6) obtain page where
    e: "createEmptyPage ps df ws mm = Inr page" "length page = ps" and
    u0: "encodeNVM m A P options =
       Some (bindE (writeObjects m ps (replicate (pagesFor ZWAVE_APPLICATION_NVM_SIZE ps) page) A) (\<lambda>app.
             bindE (writeObjects m ps (replicate (pagesFor ZWAVE_PROTOCOL_NVM_SIZE ps) page) P) (\<lambda>proto.
             Inr (concat (app @ proto)))))"
    unfolding df_def ws_def mm_def by auto
  from u0 enc have "bindE (writeObjects m ps (replicate (pagesFor ZWAVE_APPLICATION_NVM_SIZE ps) page) A) (\<lambda>app.
             bindE (writeObjects m ps (replicate (pagesFor ZWAVE_PROTOCOL_NVM_SIZE ps) page) P) (\<lambda>proto.
             Inr (concat (app @ proto)))) = Inr buf" by simp
  then obtain app proto where
    a0: "writeObjects m ps (replicate (pagesFor ZWAVE_APPLICATION_NVM_SIZE ps) page) A = Inr app" and
    p0: "writeObjects m ps (replicate (pagesFor ZWAVE_PROTOCOL_NVM_SIZE ps) page) P = Inr proto" and
    b: "buf = concat app @ concat proto"
    by (auto simp: bindE_eq_Inr)
  note a = a0 [unfolded pa] and p = p0 [unfolded pp]
  from writeObjects_lengths [OF a] e(2)
  have la: "map length app = replicate ((0x3000 + ps - 1) div ps) ps" by simp
  from writeObjects_lengths [OF p] e(2)
  have lp: "map length proto = replicate ((0x9000 + ps - 1) div ps) ps" by simp
  have na: "length app = (0x3000 + ps - 1) div ps"
    using arg_cong [OF la, of length] by simp
  have np: "length proto = (0x9000 + ps - 1) div ps"
    using arg_cong [OF lp, of length] by simp
  have each: "\<forall>pg\<in>set (app @ proto). length pg = ps"
  proof
    fix pg
    assume "pg \<in> set (app @ proto)"
    then have "length pg \<in> set (map length app) \<union> set (map length proto)" by auto
    then show "length pg = ps" unfolding la lp by auto
  qed
  from e a p b na np each length_concat_uniform [OF la] length_concat_uniform [OF lp]
  show "\<exists>page app proto.
                createEmptyPage ps df ws mm = Inr page \<and> length page = ps
              \<and> writeObjects m ps (replicate ((0x3000 + ps - 1) div ps) page) A = Inr app
              \<and> writeObjects m ps (replicate ((0x9000 + ps - 1) div ps) page) P = Inr proto
              \<and> buf = concat app @ concat proto
              \<and> length app = (0x3000 + ps - 1) div ps
              \<and> length proto = (0x9000 + ps - 1) div ps
              \<and> (\<forall>pg\<in>set (app @ proto). length pg = ps)
              \<and> length (concat app) = ((0x3000 + ps - 1) div ps) * ps
              \<and> length (concat proto) = ((0x9000 + ps - 1) div ps) * ps"
    by blast
qed

definition options8192 :: "EncodeNVMOptions option" where
  "options8192 = Some \<lparr> opt_pageSize = Some 8192, opt_deviceFamily = None,
                        opt_writeSize = None, opt_memoryMapped = None \<rparr>"

lemma pagesFor_8192:
  "pagesFor ZWAVE_APPLICATION_NVM_SIZE 8192 = 2" "pagesFor ZWAVE_PROTOCOL_NVM_SIZE 8192 = 5"
  by (simp_all add: pagesFor_def ZWAVE_APPLICATION_NVM_SIZE_def ZWAVE_PROTOCOL_NVM_SIZE_def)

theorem encodeNVM_page_size_unchecked_witness:
  "\<not> 8192 dvd ZWAVE_APPLICATION_NVM_SIZE \<and> \<not> 8192 dvd ZWAVE_PROTOCOL_NVM_SIZE
   \<and> (\<exists>buf app proto. encodeNVM refLayer [] [] options8192 = Some (Inr buf)
         \<and> buf = concat app @ concat proto
         \<and> length app = 2 \<and> length proto = 5 \<and> (\<forall>pg\<in>set (app @ proto). length pg = 8192)
         \<and> length buf = 57344)"
proof -
  have o: "Option.bind options8192 opt_pageSize = Some 8192" by (simp add: options8192_def)
  note t = encodeNVM_page_size_unchecked [OF o, of refLayer "[]" "[]"]
  from t obtain buf where b: "encodeNVM refLayer [] [] options8192 = Some (Inr buf)" by auto
  from t b obtain app proto where
    "buf = concat app @ concat proto" "length app = 2" "length proto = 5"
    "\<forall>pg\<in>set (app @ proto). length pg = 8192"
    "length (concat app) = 2 * 8192" "length (concat proto) = 5 * 8192"
    by auto
  with b have "\<exists>buf app proto. encodeNVM refLayer [] [] options8192 = Some (Inr buf)
         \<and> buf = concat app @ concat proto
         \<and> length app = 2 \<and> length proto = 5 \<and> (\<forall>pg\<in>set (app @ proto). length pg = 8192)
         \<and> length buf = 57344"
    by (intro exI [of _ buf] exI [of _ app] exI [of _ proto]) simp
  then show ?thesis
    by (simp add: ZWAVE_APPLICATION_NVM_SIZE_def ZWAVE_PROTOCOL_NVM_SIZE_def)
qed

theorem encodeNVM_invalid_option_counterexample:
  "\<not> 8192 dvd ZWAVE_APPLICATION_NVM_SIZE
   \<and> map_option (map_sum id length) (encodeNVM refLayer [] [] options8192) = Some (Inr 57344)"
proof -
  have "map_option (map_sum id length) (encodeNVM refLayer [] [] options8192) = Some (Inr 57344)"
    using encodeNVM_empty [of options8192 refLayer] pagesFor_8192
    by (simp add: options8192_def)
  then show ?thesis by (simp add: ZWAVE_APPLICATION_NVM_SIZE_def)
qed

lemma readUInt16LE_take:
  "offs + 2 \<le> k \<Longrightarrow> k \<le> length buffer \<Longrightarrow> readUInt16LE (take k buffer) offs = readUInt16LE buffer offs"
  by (simp add: readUInt16LE_def)

lemma readUInt32LE_take:
  "offs + 4 \<le> k \<Longrightarrow> k \<le> length buffer \<Longrightarrow> readUInt32LE (take k buffer) offs = readUInt32LE buffer offs"
  by (simp add: readUInt32LE_def)

lemma length_sliceBuffer:
  "e \<le> length buffer \<Longrightarrow> length (sliceBuffer buffer s e) = e - s"
  by (simp add: sliceBuffer_def)

text \<open>
  C8. A page whose declared size (bits 13 to 15 of the device-info word) exceeds the flash
  maximum of 2048 is laid out with the clamped size: readPage consumes exactly
  \<^verbatim>\<open>min(declared, 2048) = 2048\<close> bytes, the buffer holds that many bytes from the page
  offset, and the objects are read from the 2028 bytes behind the 20-byte header. The same
  buffer cut short inside the page (behind the header fields that are read first) is
  rejected as an incomplete page.
\<close>

theorem readPage_clamps_page_size:
  assumes "readPage m buffer offs = Inr (page, n)"
    and "FLASH_MAX_PAGE_SIZE < pageSize (header page)"
  shows "n = 2048
       \<and> n = min (pageSize (header page)) FLASH_MAX_PAGE_SIZE
       \<and> offs + 2048 \<le> length buffer
       \<and> readObjects m (sliceBuffer buffer (offs + 20) (offs + 2048)) = Inr (objects page)
       \<and> length (sliceBuffer buffer (offs + 20) (offs + 2048)) = 2048 - 20
       \<and> (\<forall>k. offs + 18 \<le> k \<and> k < offs + 2048 \<longrightarrow>
              readPage m (take k buffer) offs = Inl IncompletePage)"
proof -
  from readPage_Inr [OF assms(1)] obtain ec eci stat devInfo formatInfo where
    r: "readUInt16LE buffer offs = Inr 1"
       "readUInt16LE buffer (offs + 2) = Inr NVM3_PAGE_MAGIC"
       "readUInt32LE buffer (offs + 4) = Inr ec"
       "validateBergerCode (ec AND NVM3_PAGE_COUNTER_MASK)
              (drop_bit NVM3_PAGE_COUNTER_SIZE ec) NVM3_PAGE_COUNTER_SIZE = Inr ()"
       "readUInt32LE buffer (offs + 8) = Inr eci"
       "validateBergerCode (eci AND NVM3_PAGE_COUNTER_MASK)
              (drop_bit NVM3_PAGE_COUNTER_SIZE eci) NVM3_PAGE_COUNTER_SIZE = Inr ()"
       "int (ec AND NVM3_PAGE_COUNTER_MASK)
             = (NOT (int (eci AND NVM3_PAGE_COUNTER_MASK)) AND int NVM3_PAGE_COUNTER_MASK)"
       "readUInt32LE buffer (offs + 12) = Inr stat"
       "readUInt16LE buffer (offs + 16) = Inr devInfo"
    and n: "n = min (pageSizeFromBits (drop_bit 13 devInfo AND 7)) FLASH_MAX_PAGE_SIZE"
    and le: "offs + n \<le> length buffer"
    and ro: "readObjects m (sliceBuffer buffer (offs + 20) (offs + n)) = Inr (objects page)"
    and ps: "pageSize (header page) = pageSizeFromBits (drop_bit 13 devInfo AND 7)"
    by fastforce
  from n ps assms(2) have n2048: "n = 2048" by (simp add: FLASH_MAX_PAGE_SIZE_def)
  have cut: "readPage m (take k buffer) offs = Inl IncompletePage"
    if k: "offs + 18 \<le> k \<and> k < offs + 2048" for k
  proof -
    from k le n2048 have kl: "k \<le> length buffer" by simp
    have t: "readUInt16LE (take k buffer) offs = Inr 1"
       "readUInt16LE (take k buffer) (offs + 2) = Inr NVM3_PAGE_MAGIC"
       "readUInt32LE (take k buffer) (offs + 4) = Inr ec"
       "readUInt32LE (take k buffer) (offs + 8) = Inr eci"
       "readUInt32LE (take k buffer) (offs + 12) = Inr stat"
       "readUInt16LE (take k buffer) (offs + 16) = Inr devInfo"
      using k kl r by (simp_all add: readUInt16LE_take readUInt32LE_take)
    have short: "length (take k buffer) < offs + min (pageSizeFromBits (drop_bit 13 devInfo AND 7)) FLASH_MAX_PAGE_SIZE"
      using k kl n n2048 by simp
    show ?thesis
      unfolding readPage_def Let_def
      by (simp only: t r bindE_Inr if_False if_True short simp_thms)
  qed
  from n2048 n ps le ro cut show ?thesis
    by (simp add: length_sliceBuffer)
qed

definition page4096 :: "byte list" where
  \<comment> \<open>An erased page whose header declares a page size of 4096 bytes.\<close>
  "page4096 = [1, 0, 0x9a, 0xb2, 0, 0, 0, 0xD8, 0xff, 0xff, 0xff, 0x07,
               0xff, 0xff, 0xff, 0xff, 0xff, 0x7f, 0xff, 0xff] @ replicate 2028 0xff"

lemma mask_value: "NVM3_PAGE_COUNTER_MASK = 134217727"
  by (simp add: NVM3_PAGE_COUNTER_MASK_def NVM3_PAGE_COUNTER_SIZE_def)

lemma refReadObjects_erased: "refReadObjects (replicate n 0xff) = Inr []"
  by (subst refReadObjects.simps) (cases n; simp)

lemma readPage_header_ok:
  assumes "readUInt16LE buffer offs = Inr 1"
    and "readUInt16LE buffer (offs + 2) = Inr NVM3_PAGE_MAGIC"
    and "readUInt32LE buffer (offs + 4) = Inr ec"
    and "computeBergerCode (ec AND NVM3_PAGE_COUNTER_MASK) NVM3_PAGE_COUNTER_SIZE
           = drop_bit NVM3_PAGE_COUNTER_SIZE ec"
    and "readUInt32LE buffer (offs + 8) = Inr eci"
    and "computeBergerCode (eci AND NVM3_PAGE_COUNTER_MASK) NVM3_PAGE_COUNTER_SIZE
           = drop_bit NVM3_PAGE_COUNTER_SIZE eci"
    and "int (ec AND NVM3_PAGE_COUNTER_MASK)
           = (NOT (int (eci AND NVM3_PAGE_COUNTER_MASK)) AND int NVM3_PAGE_COUNTER_MASK)"
    and "readUInt32LE buffer (offs + 12) = Inr stat"
    and "readUInt16LE buffer (offs + 16) = Inr devInfo"
    and "readUInt16LE buffer (offs + 18) = Inr formatInfo"
    and "n = min (pageSizeFromBits (drop_bit 13 devInfo AND 7)) FLASH_MAX_PAGE_SIZE"
    and "offs + n \<le> length buffer"
  shows "readPage m buffer offs =
     bindE (readObjects m (sliceBuffer buffer (offs + 20) (offs + n))) (\<lambda>objs.
       Inr (\<lparr> header = \<lparr> offset = offs, version = 1,
                eraseCount = ec AND NVM3_PAGE_COUNTER_MASK,
                status = stat, encrypted = (formatInfo AND 1 = 0),
                pageSize = pageSizeFromBits (drop_bit 13 devInfo AND 7),
                writeSize = drop_bit 11 devInfo AND 1,
                memoryMapped = (drop_bit 12 devInfo AND 1 \<noteq> 0),
                deviceFamily = devInfo AND 0x7ff \<rparr>, objects = objs \<rparr>, n))"
proof -
  have long: "\<not> length buffer < offs + n"
    using assms(12) by simp
  show ?thesis
    unfolding readPage_def Let_def validateBergerCode_def
    by (simp only: assms(1-10) assms(11) [symmetric] long bindE_Inr if_False if_True simp_thms)
qed

lemma readPage_page4096:
  "readPage refLayer page4096 0 =
     Inr (\<lparr> header = \<lparr> offset = 0, version = 1, eraseCount = 0, status = 0xffffffff,
                      encrypted = False, pageSize = 4096, writeSize = 1,
                      memoryMapped = True, deviceFamily = 2047 \<rparr>,
            objects = [] \<rparr>, 2048)"
proof -
  have len: "0 + 2048 \<le> length page4096" by (simp add: page4096_def)
  have r: "readUInt16LE page4096 0 = Inr 1"
       "readUInt16LE page4096 (0 + 2) = Inr NVM3_PAGE_MAGIC"
       "readUInt32LE page4096 (0 + 4) = Inr 0xD8000000"
       "readUInt32LE page4096 (0 + 8) = Inr 0x07FFFFFF"
       "readUInt32LE page4096 (0 + 12) = Inr 0xffffffff"
       "readUInt16LE page4096 (0 + 16) = Inr 0x7fff"
       "readUInt16LE page4096 (0 + 18) = Inr 0xffff"
    by (simp_all add: readUInt16LE_def readUInt32LE_def page4096_def NVM3_PAGE_MAGIC_def)
  have b: "computeBergerCode (0xD8000000 AND NVM3_PAGE_COUNTER_MASK) NVM3_PAGE_COUNTER_SIZE
           = drop_bit NVM3_PAGE_COUNTER_SIZE 0xD8000000"
      "computeBergerCode (0x07FFFFFF AND NVM3_PAGE_COUNTER_MASK) NVM3_PAGE_COUNTER_SIZE
           = drop_bit NVM3_PAGE_COUNTER_SIZE 0x07FFFFFF"
      "int (0xD8000000 AND NVM3_PAGE_COUNTER_MASK)
           = (NOT (int (0x07FFFFFF AND NVM3_PAGE_COUNTER_MASK)) AND int NVM3_PAGE_COUNTER_MASK)"
    by (simp_all add: mask_value NVM3_PAGE_COUNTER_SIZE_def berger_zero berger_mask)
  have n: "2048 = min (pageSizeFromBits (drop_bit 13 0x7fff AND 7)) FLASH_MAX_PAGE_SIZE"
    by (simp add: pageSizeFromBits_def NVM3_MIN_PAGE_SIZE_def FLASH_MAX_PAGE_SIZE_def)
  have s: "sliceBuffer page4096 (0 + 20) (0 + 2048) = replicate 2028 0xff"
    by (simp add: sliceBuffer_def page4096_def)
  show ?thesis
    unfolding readPage_header_ok [of page4096 0, OF r(1-3) b(1) r(4) b(2) b(3) r(5-7) n len] s
    by (simp add: refLayer_def refReadObjects_erased mask_value pageSizeFromBits_def
        NVM3_MIN_PAGE_SIZE_def)
qed

theorem readPage_clamps_page_size_witness:
  "readPage refLayer page4096 0 =
     Inr (\<lparr> header = \<lparr> offset = 0, version = 1, eraseCount = 0, status = 0xffffffff,
                      encrypted = False, pageSize = 4096, writeSize = 1,
                      memoryMapped = True, deviceFamily = 2047 \<rparr>,
            objects = [] \<rparr>, 2048)
   \<and> readObjects refLayer (sliceBuffer page4096 20 2048) = Inr []
   \<and> length (sliceBuffer page4096 20 2048) = 2028
   \<and> readPage refLayer (take 2047 page4096) 0 = Inl IncompletePage"
  using readPage_clamps_page_size [OF readPage_page4096] readPage_page4096
  by (simp add: FLASH_MAX_PAGE_SIZE_def)

lemma readUInt16LE_agree:
  "length b2 = length b1 \<Longrightarrow> b2 ! offs = b1 ! offs \<Longrightarrow> b2 ! (offs + 1) = b1 ! (offs + 1)
     \<Longrightarrow> readUInt16LE b2 offs = readUInt16LE b1 offs"
  by (simp add: readUInt16LE_def)

lemma readUInt32LE_agree:
  "length b2 = length b1 \<Longrightarrow> b2 ! offs = b1 ! offs \<Longrightarrow> b2 ! (offs + 1) = b1 ! (offs + 1)
     \<Longrightarrow> b2 ! (offs + 2) = b1 ! (offs + 2) \<Longrightarrow> b2 ! (offs + 3) = b1 ! (offs + 3)
     \<Longrightarrow> readUInt32LE b2 offs = readUInt32LE b1 offs"
  by (simp add: readUInt32LE_def)

lemma sliceBuffer_agree:
  assumes "length b2 = length b1" and "e \<le> length b1"
    and "\<forall>i. s \<le> i \<and> i < e \<longrightarrow> b2 ! i = b1 ! i"
  shows "sliceBuffer b2 s e = sliceBuffer b1 s e"
  unfolding sliceBuffer_def
  by (rule nth_equalityI) (use assms in auto)

lemma readUInt32LE_total: "offs + 4 \<le> length b \<Longrightarrow> \<exists>v. readUInt32LE b offs = Inr v"
  by (simp add: readUInt32LE_def)

text \<open>
  What readPage returns depends on the length of the buffer and on the bytes of the page
  only, and the four bytes of the status word reach nothing but the status field.
\<close>

lemma readPage_agree_status:
  assumes rp: "readPage m b1 offs = Inr (p, n)" and len: "length b2 = length b1"
    and ag: "\<forall>i. offs \<le> i \<and> i < offs + n \<and> \<not> (offs + 12 \<le> i \<and> i < offs + 16)
                \<longrightarrow> b2 ! i = b1 ! i"
  shows "\<exists>stat. readUInt32LE b2 (offs + 12) = Inr stat
          \<and> readPage m b2 offs = Inr (p\<lparr>header := (header p)\<lparr>status := stat\<rparr>\<rparr>, n)"
proof -
  from readPage_Inr [OF rp] obtain ec eci stat devInfo formatInfo where
    r: "readUInt16LE b1 offs = Inr 1"
       "readUInt16LE b1 (offs + 2) = Inr NVM3_PAGE_MAGIC"
       "readUInt32LE b1 (offs + 4) = Inr ec"
       "readUInt32LE b1 (offs + 8) = Inr eci"
       "readUInt16LE b1 (offs + 16) = Inr devInfo"
       "readUInt16LE b1 (offs + 18) = Inr formatInfo"
    and v: "validateBergerCode (ec AND NVM3_PAGE_COUNTER_MASK)
              (drop_bit NVM3_PAGE_COUNTER_SIZE ec) NVM3_PAGE_COUNTER_SIZE = Inr ()"
       "validateBergerCode (eci AND NVM3_PAGE_COUNTER_MASK)
              (drop_bit NVM3_PAGE_COUNTER_SIZE eci) NVM3_PAGE_COUNTER_SIZE = Inr ()"
    and c: "int (ec AND NVM3_PAGE_COUNTER_MASK)
             = (NOT (int (eci AND NVM3_PAGE_COUNTER_MASK)) AND int NVM3_PAGE_COUNTER_MASK)"
    and n: "n = min (pageSizeFromBits (drop_bit 13 devInfo AND 7)) FLASH_MAX_PAGE_SIZE"
    and le: "offs + n \<le> length b1"
    and ro: "readObjects m (sliceBuffer b1 (offs + 20) (offs + n)) = Inr (objects p)"
    and h: "header p = \<lparr> offset = offs, version = 1,
                eraseCount = ec AND NVM3_PAGE_COUNTER_MASK,
                status = stat, encrypted = (formatInfo AND 1 = 0),
                pageSize = pageSizeFromBits (drop_bit 13 devInfo AND 7),
                writeSize = drop_bit 11 devInfo AND 1,
                memoryMapped = (drop_bit 12 devInfo AND 1 \<noteq> 0),
                deviceFamily = devInfo AND 0x7ff \<rparr>"
    by blast
  have n512: "512 \<le> n" using readPage_bytesRead(1) [OF rp] .
  have r2: "readUInt16LE b2 offs = Inr 1"
       "readUInt16LE b2 (offs + 2) = Inr NVM3_PAGE_MAGIC"
       "readUInt32LE b2 (offs + 4) = Inr ec"
       "readUInt32LE b2 (offs + 8) = Inr eci"
       "readUInt16LE b2 (offs + 16) = Inr devInfo"
       "readUInt16LE b2 (offs + 18) = Inr formatInfo"
    using r n512 ag len
    by (simp_all add: readUInt16LE_agree [of b2 b1] readUInt32LE_agree [of b2 b1])
  from le n512 len obtain stat' where st: "readUInt32LE b2 (offs + 12) = Inr stat'"
    using readUInt32LE_total [of "offs + 12" b2] by auto
  have sl: "sliceBuffer b2 (offs + 20) (offs + n) = sliceBuffer b1 (offs + 20) (offs + n)"
    using len le ag by (intro sliceBuffer_agree) auto
  have v2: "computeBergerCode (ec AND NVM3_PAGE_COUNTER_MASK) NVM3_PAGE_COUNTER_SIZE
           = drop_bit NVM3_PAGE_COUNTER_SIZE ec"
       "computeBergerCode (eci AND NVM3_PAGE_COUNTER_MASK) NVM3_PAGE_COUNTER_SIZE
           = drop_bit NVM3_PAGE_COUNTER_SIZE eci"
    using v by (simp_all add: validateBergerCode_def split: if_splits)
  have le2: "offs + n \<le> length b2" using le len by simp
  have "readPage m b2 offs = Inr (p\<lparr>header := (header p)\<lparr>status := stat'\<rparr>\<rparr>, n)"
    unfolding readPage_header_ok [of b2 offs, OF r2(1-3) v2(1) r2(4) v2(2) c st r2(5,6) n le2] sl ro
    by (simp add: h)
  with st show ?thesis by blast
qed

lemma readPage_agree:
  assumes rp: "readPage m b1 offs = Inr (p, n)" and len: "length b2 = length b1"
    and ag: "\<forall>i. offs \<le> i \<and> i < offs + n \<longrightarrow> b2 ! i = b1 ! i"
  shows "readPage m b2 offs = Inr (p, n)"
proof -
  from readPage_agree_status [OF rp len] ag obtain stat where
    st: "readUInt32LE b2 (offs + 12) = Inr stat"
    and r2: "readPage m b2 offs = Inr (p\<lparr>header := (header p)\<lparr>status := stat\<rparr>\<rparr>, n)"
    by blast
  have n512: "512 \<le> n" using readPage_bytesRead(1) [OF rp] .
  have "readUInt32LE b2 (offs + 12) = readUInt32LE b1 (offs + 12)"
    using ag n512 len by (intro readUInt32LE_agree) auto
  moreover from readPage_Inr [OF rp] have "readUInt32LE b1 (offs + 12) = Inr (status (header p))"
    by fastforce
  ultimately have "stat = status (header p)" using st by simp
  with r2 show ?thesis by simp
qed

definition flipBit :: "byte list \<Rightarrow> nat \<Rightarrow> nat \<Rightarrow> byte list" where
  \<comment> \<open>The buffer with bit \<^verbatim>\<open>k\<close> of byte \<^verbatim>\<open>i\<close> inverted.\<close>
  "flipBit buffer i k = buffer[i := (buffer ! i) XOR (push_bit k 1)]"

lemma flip_low: "unat ((b :: byte) XOR push_bit (3 + j) 1) mod 8 = unat b mod 8"
proof -
  have "take_bit 3 (b XOR push_bit (3 + j) 1) = take_bit 3 b"
    by (rule bit_word_eqI) (auto simp: bit_simps)
  then have "take_bit 3 (unat (b XOR push_bit (3 + j) 1)) = take_bit 3 (unat b)"
    by (metis unsigned_take_bit_eq)
  then show ?thesis by (simp only: take_bit_eq_mod) simp
qed

lemma flip_high: "j < 5 \<Longrightarrow> unat ((b :: byte) XOR push_bit (3 + j) 1) div 8 \<noteq> unat b div 8"
proof
  assume j: "j < 5" and eq: "unat (b XOR push_bit (3 + j) 1) div 8 = unat b div 8"
  have "drop_bit 3 (unat (b XOR push_bit (3 + j) 1)) = drop_bit 3 (unat b)"
    using eq by (simp only: drop_bit_eq_div) simp
  then have "bit (drop_bit 3 (unat (b XOR push_bit (3 + j) 1))) j = bit (drop_bit 3 (unat b)) j"
    by (simp only:)
  then have "bit (unat (b XOR push_bit (3 + j) 1)) (3 + j) = bit (unat b) (3 + j)"
    by (simp only: bit_drop_bit_eq comp_def)
  then have "bit (b XOR push_bit (3 + j) 1) (3 + j) = bit b (3 + j)"
    by (simp only: bit_unsigned_iff) simp
  then show False using j by (simp add: bit_simps)
qed

lemma readPage_berger_fail1:
  assumes "readUInt16LE buffer offs = Inr 1"
    and "readUInt16LE buffer (offs + 2) = Inr NVM3_PAGE_MAGIC"
    and "readUInt32LE buffer (offs + 4) = Inr ec"
    and "computeBergerCode (ec AND NVM3_PAGE_COUNTER_MASK) NVM3_PAGE_COUNTER_SIZE
           \<noteq> drop_bit NVM3_PAGE_COUNTER_SIZE ec"
  shows "readPage m buffer offs = Inl BergerCodeError"
  unfolding readPage_def Let_def validateBergerCode_def
  by (simp only: assms bindE_Inr bindE_Inl if_False if_True simp_thms)

lemma readPage_berger_fail2:
  assumes "readUInt16LE buffer offs = Inr 1"
    and "readUInt16LE buffer (offs + 2) = Inr NVM3_PAGE_MAGIC"
    and "readUInt32LE buffer (offs + 4) = Inr ec"
    and "computeBergerCode (ec AND NVM3_PAGE_COUNTER_MASK) NVM3_PAGE_COUNTER_SIZE
           = drop_bit NVM3_PAGE_COUNTER_SIZE ec"
    and "readUInt32LE buffer (offs + 8) = Inr eci"
    and "computeBergerCode (eci AND NVM3_PAGE_COUNTER_MASK) NVM3_PAGE_COUNTER_SIZE
           \<noteq> drop_bit NVM3_PAGE_COUNTER_SIZE eci"
  shows "readPage m buffer offs = Inl BergerCodeError"
  unfolding readPage_def Let_def validateBergerCode_def
  by (simp only: assms bindE_Inr bindE_Inl if_False if_True simp_thms)

lemma readPage_complement_fail:
  assumes "readUInt16LE buffer offs = Inr 1"
    and "readUInt16LE buffer (offs + 2) = Inr NVM3_PAGE_MAGIC"
    and "readUInt32LE buffer (offs + 4) = Inr ec"
    and "computeBergerCode (ec AND NVM3_PAGE_COUNTER_MASK) NVM3_PAGE_COUNTER_SIZE
           = drop_bit NVM3_PAGE_COUNTER_SIZE ec"
    and "readUInt32LE buffer (offs + 8) = Inr eci"
    and "computeBergerCode (eci AND NVM3_PAGE_COUNTER_MASK) NVM3_PAGE_COUNTER_SIZE
           = drop_bit NVM3_PAGE_COUNTER_SIZE eci"
    and "int (ec AND NVM3_PAGE_COUNTER_MASK)
           \<noteq> (NOT (int (eci AND NVM3_PAGE_COUNTER_MASK)) AND int NVM3_PAGE_COUNTER_MASK)"
  shows "readPage m buffer offs = Inl InvalidEraseCount"
  unfolding readPage_def Let_def validateBergerCode_def
  by (simp only: assms bindE_Inr bindE_Inl if_False if_True simp_thms)

lemma and_counter_mask: "x AND NVM3_PAGE_COUNTER_MASK = x mod 134217728" for x :: nat
proof -
  have "NVM3_PAGE_COUNTER_MASK = mask 27"
    by (simp add: mask_value mask_eq_exp_minus_1)
  then have "x AND NVM3_PAGE_COUNTER_MASK = take_bit 27 x"
    by (simp only: take_bit_eq_mask)
  then show ?thesis by (simp add: take_bit_eq_mod)
qed

lemma word32_split:
  fixes b0 b1 b2 b3 :: byte
  defines "w \<equiv> unat b0 + 256 * unat b1 + 65536 * unat b2 + 16777216 * unat b3"
  shows "w AND NVM3_PAGE_COUNTER_MASK
           = unat b0 + 256 * unat b1 + 65536 * unat b2 + 16777216 * (unat b3 mod 8)"
    and "drop_bit NVM3_PAGE_COUNTER_SIZE w = unat b3 div 8"
proof -
  have lt: "unat b0 < 256" "unat b1 < 256" "unat b2 < 256"
    using unsigned_less [of b0] unsigned_less [of b1] unsigned_less [of b2] by simp_all
  let ?L = "unat b0 + 256 * unat b1 + 65536 * unat b2"
  have L: "?L < 16777216" using lt by linarith
  have w: "w = ?L + 16777216 * unat b3" by (simp add: w_def)
  define q r where "q = unat b3 div 8" and "r = unat b3 mod 8"
  have b3: "unat b3 = 8 * q + r" by (simp add: q_def r_def)
  have w': "w = (?L + 16777216 * r) + 134217728 * q"
    unfolding w b3 by simp
  have r: "r < 8" by (simp add: r_def)
  have small: "?L + 16777216 * r < 134217728"
    using L r by linarith
  have "w AND NVM3_PAGE_COUNTER_MASK = ?L + 16777216 * r"
    unfolding and_counter_mask using small by (subst w') simp
  then show "w AND NVM3_PAGE_COUNTER_MASK = ?L + 16777216 * (unat b3 mod 8)"
    by (simp add: r_def)
  have "drop_bit NVM3_PAGE_COUNTER_SIZE w = q"
    unfolding NVM3_PAGE_COUNTER_SIZE_def drop_bit_eq_div using small by (subst w') simp
  then show "drop_bit NVM3_PAGE_COUNTER_SIZE w = unat b3 div 8"
    by (simp add: q_def)
qed

lemma length_flipBit [simp]: "length (flipBit b i k) = length b"
  by (simp add: flipBit_def)

lemma nth_flipBit_other: "i' \<noteq> i \<Longrightarrow> flipBit b i k ! i' = b ! i'"
  by (simp add: flipBit_def)

lemma nth_flipBit_same: "i < length b \<Longrightarrow> flipBit b i k ! i = (b ! i) XOR push_bit k 1"
  by (simp add: flipBit_def)

lemma readPage_flip_code:
  assumes rp: "readPage m b offs = Inr (p, n)" and j: "j < 5"
  shows "readPage m (flipBit b (offs + 7) (3 + j)) offs = Inl BergerCodeError"
proof -
  let ?b' = "flipBit b (offs + 7) (3 + j)"
  from readPage_Inr [OF rp] obtain ec where
    r: "readUInt16LE b offs = Inr 1"
       "readUInt16LE b (offs + 2) = Inr NVM3_PAGE_MAGIC"
       "readUInt32LE b (offs + 4) = Inr ec"
    and v: "validateBergerCode (ec AND NVM3_PAGE_COUNTER_MASK)
              (drop_bit NVM3_PAGE_COUNTER_SIZE ec) NVM3_PAGE_COUNTER_SIZE = Inr ()"
    by blast
  from readPage_bytesRead(1,3) [OF rp] have len: "offs + 512 \<le> length b" by linarith
  have r1: "readUInt16LE ?b' offs = Inr 1"
    using r(1) by (simp add: readUInt16LE_agree [of ?b' b] nth_flipBit_other)
  have r2: "readUInt16LE ?b' (offs + 2) = Inr NVM3_PAGE_MAGIC"
    using r(2) by (simp add: readUInt16LE_agree [of ?b' b] nth_flipBit_other)
  define x where "x = b ! (offs + 7)"
  define x' where "x' = x XOR push_bit (3 + j) 1"
  have ec: "ec = unat (b ! (offs + 4)) + 256 * unat (b ! (offs + 5))
                 + 65536 * unat (b ! (offs + 6)) + 16777216 * unat x"
    using r(3) len by (simp add: readUInt32LE_def x_def add.commute)
  define ec' where "ec' = unat (b ! (offs + 4)) + 256 * unat (b ! (offs + 5))
                 + 65536 * unat (b ! (offs + 6)) + 16777216 * unat x'"
  have r3: "readUInt32LE ?b' (offs + 4) = Inr ec'"
    using len by (simp add: readUInt32LE_def ec'_def x'_def x_def nth_flipBit_other
        nth_flipBit_same add.commute)
  have v0: "computeBergerCode (ec AND NVM3_PAGE_COUNTER_MASK) NVM3_PAGE_COUNTER_SIZE
           = drop_bit NVM3_PAGE_COUNTER_SIZE ec"
    using v by (simp add: validateBergerCode_def split: if_splits)
  have same: "ec' AND NVM3_PAGE_COUNTER_MASK = ec AND NVM3_PAGE_COUNTER_MASK"
    unfolding ec ec'_def word32_split(1) x'_def by (simp only: flip_low)
  have diff: "drop_bit NVM3_PAGE_COUNTER_SIZE ec' \<noteq> drop_bit NVM3_PAGE_COUNTER_SIZE ec"
    unfolding ec ec'_def word32_split(2) x'_def using flip_high [OF j] by simp
  show ?thesis
    by (rule readPage_berger_fail1 [OF r1 r2 r3]) (simp add: same v0 diff [symmetric])
qed

lemma readPages_Inr_Nil: "\<not> offs < length b \<Longrightarrow> readPages m b offs = Inr []"
  by (subst readPages.simps) simp

lemma readPages_step:
  "offs < length b \<Longrightarrow> readPages m b offs =
     bindE (readPage m b offs) (\<lambda>r.
     bindE (readPages m b (offs + snd r)) (\<lambda>rest. Inr (fst r # rest)))"
  by (subst readPages.simps) simp

lemma readPages_ConsD:
  assumes "readPages m b offs = Inr ps" and "offs < length b"
  shows "\<exists>p n rest. readPage m b offs = Inr (p, n) \<and> readPages m b (offs + n) = Inr rest
           \<and> ps = p # rest"
  using assms by (auto simp: readPages_step bindE_eq_Inr)

lemma readPages_offsets:
  "readPages m b offs = Inr ps \<Longrightarrow> p \<in> set ps \<Longrightarrow> offs \<le> offset (header p)"
proof (induction m b offs arbitrary: ps rule: readPages.induct)
  case (1 m b offs)
  show ?case
  proof (cases "offs < length b")
    case False
    with "1.prems" show ?thesis by (simp add: readPages_Inr_Nil)
  next
    case True
    from readPages_ConsD [OF "1.prems"(1) True] obtain p0 n rest where
      rp: "readPage m b offs = Inr (p0, n)" and rs: "readPages m b (offs + n) = Inr rest"
      and ps: "ps = p0 # rest" by blast
    show ?thesis
    proof (cases "p = p0")
      case True
      with readPage_bytesRead(4) [OF rp] show ?thesis by simp
    next
      case False
      with "1.prems"(2) ps have "p \<in> set rest" by simp
      from "1.IH" [OF True rp [symmetric, THEN sym] _ this] rs
      have "offs + n \<le> offset (header p)" by simp
      then show ?thesis by simp
    qed
  qed
qed

lemma readPages_flip_code:
  "readPages m b offs = Inr ps \<Longrightarrow> p \<in> set ps \<Longrightarrow> j < 5 \<Longrightarrow>
     readPages m (flipBit b (offset (header p) + 7) (3 + j)) offs = Inl BergerCodeError"
proof (induction m b offs arbitrary: ps rule: readPages.induct)
  case (1 m b offs)
  let ?b' = "flipBit b (offset (header p) + 7) (3 + j)"
  show ?case
  proof (cases "offs < length b")
    case False
    with "1.prems" show ?thesis by (simp add: readPages_Inr_Nil)
  next
    case True
    from readPages_ConsD [OF "1.prems"(1) True] obtain p0 n rest where
      rp: "readPage m b offs = Inr (p0, n)" and rs: "readPages m b (offs + n) = Inr rest"
      and ps: "ps = p0 # rest" by blast
    have lt': "offs < length ?b'" using True by simp
    show ?thesis
    proof (cases "p = p0")
      case True
      with readPage_bytesRead(4) [OF rp] have o: "offset (header p) = offs" by simp
      have "readPage m ?b' offs = Inl BergerCodeError"
        unfolding o by (rule readPage_flip_code [OF rp "1.prems"(3)])
      then show ?thesis
        unfolding readPages_step [OF lt'] by simp
    next
      case False
      with "1.prems"(2) ps have mem: "p \<in> set rest" by simp
      from readPages_offsets [OF rs mem] have ge: "offs + n \<le> offset (header p)" .
      have "readPage m ?b' offs = Inr (p0, n)"
        using ge by (intro readPage_agree [OF rp]) (auto simp: nth_flipBit_other)
      moreover have "readPages m ?b' (offs + n) = Inl BergerCodeError"
        using "1.IH" [OF True rp [symmetric, THEN sym] _ mem "1.prems"(3)] rs by simp
      ultimately show ?thesis by (simp add: readPages_step [OF lt'])
    qed
  qed
qed

lemma mset_insertPage: "mset (insertPage p qs) = add_mset p (mset qs)"
  by (induction qs) auto

lemma mset_foldl_insertPage:
  "mset (foldl (\<lambda>acc p. insertPage p acc) acc ps) = mset acc + mset ps"
  by (induction ps arbitrary: acc) (auto simp: mset_insertPage)

lemma mset_sortPages: "mset (sortPages ps) = mset ps"
  by (simp add: sortPages_def mset_foldl_insertPage)

lemma set_sortPages: "set (sortPages ps) = set ps"
  using mset_sortPages [of ps] by (metis set_mset_mset)

lemma parseNVM_Inr:
  "parseNVM m b = Inr r \<longleftrightarrow> (\<exists>ps. readPages m b 0 = Inr ps \<and> r = processPages ps)"
  by (auto simp: parseNVM_def bindE_eq_Inr)

lemma parseNVM_Inl:
  "readPages m b 0 = Inl e \<Longrightarrow> parseNVM m b = Inl e"
  by (simp add: parseNVM_def)

lemma set_processPages:
  "set (applicationPages (processPages ps) @ protocolPages (processPages ps)) = set ps"
  by (auto simp: processPages_def Let_def set_sortPages)

lemma parseNVM_flip_code:
  assumes "parseNVM m b = Inr r" and "p \<in> set (applicationPages r @ protocolPages r)"
    and "j < 5"
  shows "parseNVM m (flipBit b (offset (header p) + 7) (3 + j)) = Inl BergerCodeError"
proof -
  from assms(1) obtain ps where ps: "readPages m b 0 = Inr ps" "r = processPages ps"
    by (auto simp: parseNVM_Inr)
  with assms(2) set_processPages [of ps] have "p \<in> set ps" by blast
  from readPages_flip_code [OF ps(1) this assms(3)] show ?thesis by (rule parseNVM_Inl)
qed

definition defaultHeader :: "byte list" where
  \<comment> \<open>The header of the pages that encodeNVM creates with default options.\<close>
  "defaultHeader = [1, 0, 0x9a, 0xb2, 0, 0, 0, 0xD8, 0xff, 0xff, 0xff, 0x07,
                    0xff, 0xff, 0xff, 0xff, 0xff, 0x5f, 0xff, 0xff]"

definition defaultPageHeader :: "nat \<Rightarrow> PageHeader" where
  \<comment> \<open>What readPage decodes from it at a given offset.\<close>
  "defaultPageHeader offs = \<lparr> offset = offs, version = 1, eraseCount = 0, status = 0xffffffff,
        encrypted = False, pageSize = 2048, writeSize = 1, memoryMapped = True,
        deviceFamily = 2047 \<rparr>"



lemma readUInt16LE_append:
  "k + 2 \<le> length xs \<Longrightarrow> readUInt16LE (pre @ xs @ post) (length pre + k) = readUInt16LE xs k"
  by (simp add: readUInt16LE_def nth_append)

lemma readUInt32LE_append:
  "k + 4 \<le> length xs \<Longrightarrow> readUInt32LE (pre @ xs @ post) (length pre + k) = readUInt32LE xs k"
  by (simp add: readUInt32LE_def nth_append)

lemma sliceBuffer_append:
  "length hdr = 20 \<Longrightarrow> length body = 2028 \<Longrightarrow>
     sliceBuffer (pre @ (hdr @ body) @ post) (length pre + 20) (length pre + 2048) = body"
  by (simp add: sliceBuffer_def)

text \<open>Reading a page with the default header that lies anywhere in a buffer.\<close>

lemma readPage_default_page:
  assumes body: "length body = 2028"
  shows "readPage m (pre @ (defaultHeader @ body) @ post) (length pre)
         = bindE (readObjects m body) (\<lambda>objs.
             Inr (\<lparr> header = defaultPageHeader (length pre), objects = objs \<rparr>, 2048))"
proof -
  let ?b = "pre @ (defaultHeader @ body) @ post"
  have hl: "length defaultHeader = 20" by (simp add: defaultHeader_def)
  have r0: "readUInt16LE (defaultHeader @ body) 0 = Inr 1"
       "readUInt16LE (defaultHeader @ body) 2 = Inr NVM3_PAGE_MAGIC"
       "readUInt32LE (defaultHeader @ body) 4 = Inr 0xD8000000"
       "readUInt32LE (defaultHeader @ body) 8 = Inr 0x07FFFFFF"
       "readUInt32LE (defaultHeader @ body) 12 = Inr 0xffffffff"
       "readUInt16LE (defaultHeader @ body) 16 = Inr 0x5fff"
       "readUInt16LE (defaultHeader @ body) 18 = Inr 0xffff"
    by (simp_all add: readUInt16LE_def readUInt32LE_def defaultHeader_def NVM3_PAGE_MAGIC_def)
  have r: "readUInt16LE ?b (length pre) = Inr 1"
       "readUInt16LE ?b (length pre + 2) = Inr NVM3_PAGE_MAGIC"
       "readUInt32LE ?b (length pre + 4) = Inr 0xD8000000"
       "readUInt32LE ?b (length pre + 8) = Inr 0x07FFFFFF"
       "readUInt32LE ?b (length pre + 12) = Inr 0xffffffff"
       "readUInt16LE ?b (length pre + 16) = Inr 0x5fff"
       "readUInt16LE ?b (length pre + 18) = Inr 0xffff"
    using readUInt16LE_append [of 0 "defaultHeader @ body" pre post]
      readUInt16LE_append [of 2 "defaultHeader @ body" pre post]
      readUInt32LE_append [of 4 "defaultHeader @ body" pre post]
      readUInt32LE_append [of 8 "defaultHeader @ body" pre post]
      readUInt32LE_append [of 12 "defaultHeader @ body" pre post]
      readUInt16LE_append [of 16 "defaultHeader @ body" pre post]
      readUInt16LE_append [of 18 "defaultHeader @ body" pre post]
      r0 hl body by simp_all
  have b: "computeBergerCode (0xD8000000 AND NVM3_PAGE_COUNTER_MASK) NVM3_PAGE_COUNTER_SIZE
           = drop_bit NVM3_PAGE_COUNTER_SIZE 0xD8000000"
      "computeBergerCode (0x07FFFFFF AND NVM3_PAGE_COUNTER_MASK) NVM3_PAGE_COUNTER_SIZE
           = drop_bit NVM3_PAGE_COUNTER_SIZE 0x07FFFFFF"
      "int (0xD8000000 AND NVM3_PAGE_COUNTER_MASK)
           = (NOT (int (0x07FFFFFF AND NVM3_PAGE_COUNTER_MASK)) AND int NVM3_PAGE_COUNTER_MASK)"
    by (simp_all add: mask_value NVM3_PAGE_COUNTER_SIZE_def berger_zero berger_mask)
  have n: "2048 = min (pageSizeFromBits (drop_bit 13 0x5fff AND 7)) FLASH_MAX_PAGE_SIZE"
    by (simp add: pageSizeFromBits_def NVM3_MIN_PAGE_SIZE_def FLASH_MAX_PAGE_SIZE_def)
  have len: "length pre + 2048 \<le> length ?b" using hl body by simp
  show ?thesis
    unfolding readPage_header_ok [of ?b "length pre", OF r(1-3) b(1) r(4) b(2) b(3) r(5-7) n len]
      sliceBuffer_append [OF hl body]
    by (simp add: mask_value pageSizeFromBits_def NVM3_MIN_PAGE_SIZE_def defaultPageHeader_def)
qed

definition erasedPage :: "byte list" where
  \<comment> \<open>A page as encodeNVM creates it with default options: the header, then erased space.\<close>
  "erasedPage = defaultHeader @ replicate 2028 0xff"

definition twoErasedPages :: "byte list" where
  "twoErasedPages = erasedPage @ erasedPage"

definition badComplementPage :: "byte list" where
  \<comment> \<open>An erased page of 2048 bytes whose two erase-count words carry valid Berger codes but
      are not complements: the first holds the count 0, the second the inverse of 1.\<close>
  "badComplementPage = [1, 0, 0x9a, 0xb2, 0, 0, 0, 0xD8, 0xfe, 0xff, 0xff, 0x0f,
                    0xff, 0xff, 0xff, 0xff, 0xff, 0x5f, 0xff, 0xff] @ replicate 2028 0xff"

lemma length_erasedPage: "length erasedPage = 2048"
  by (simp add: erasedPage_def defaultHeader_def)

lemma readPage_twoErasedPages:
  "readPage refLayer twoErasedPages 0 = Inr (\<lparr> header = defaultPageHeader 0, objects = [] \<rparr>, 2048)"
  "readPage refLayer twoErasedPages 2048
     = Inr (\<lparr> header = defaultPageHeader 2048, objects = [] \<rparr>, 2048)"
proof -
  have e: "readObjects refLayer (replicate 2028 0xff) = Inr []"
    by (simp add: refLayer_def refReadObjects_erased)
  show "readPage refLayer twoErasedPages 0
          = Inr (\<lparr> header = defaultPageHeader 0, objects = [] \<rparr>, 2048)"
    using readPage_default_page [of "replicate 2028 0xff" refLayer "[]" erasedPage]
    by (simp add: twoErasedPages_def erasedPage_def e)
  show "readPage refLayer twoErasedPages 2048
     = Inr (\<lparr> header = defaultPageHeader 2048, objects = [] \<rparr>, 2048)"
    using readPage_default_page [of "replicate 2028 0xff" refLayer erasedPage "[]"]
    by (simp add: twoErasedPages_def e length_erasedPage flip: erasedPage_def)
qed

lemma readPages_twoErasedPages:
  "readPages refLayer twoErasedPages 0
     = Inr [\<lparr> header = defaultPageHeader 0, objects = [] \<rparr>,
            \<lparr> header = defaultPageHeader 2048, objects = [] \<rparr>]"
proof -
  have len: "length twoErasedPages = 4096"
    by (simp add: twoErasedPages_def length_erasedPage)
  have "readPages refLayer twoErasedPages (2048 + 2048) = Inr []"
    by (rule readPages_Inr_Nil) (simp add: len)
  then have "readPages refLayer twoErasedPages 2048
               = Inr [\<lparr> header = defaultPageHeader 2048, objects = [] \<rparr>]"
    by (subst readPages_step) (simp_all add: len readPage_twoErasedPages)
  then have "readPages refLayer twoErasedPages (0 + 2048)
               = Inr [\<lparr> header = defaultPageHeader 2048, objects = [] \<rparr>]" by simp
  then show ?thesis
    by (subst readPages_step) (simp_all add: len readPage_twoErasedPages)
qed

lemma compressObjects_Nil [simp]: "compressObjects [] = []"
  by (simp add: compressObjects_def)

lemma sortPages_simps:
  "sortPages [] = []" "sortPages [p] = [p]"
  by (simp_all add: sortPages_def)

lemma parseNVM_twoErasedPages:
  "parseNVM refLayer twoErasedPages
     = Inr \<lparr> applicationPages = [\<lparr> header = defaultPageHeader 0, objects = [] \<rparr>,
                                   \<lparr> header = defaultPageHeader 2048, objects = [] \<rparr>],
             protocolPages = [], applicationObjects = [], protocolObjects = [] \<rparr>"
  by (simp add: parseNVM_def readPages_twoErasedPages processPages_def Let_def
      defaultPageHeader_def ZWAVE_APPLICATION_NVM_SIZE_def sortPages_def comparePages_def)

text \<open>
  C6 (as amended). For every page that readPage decodes, the Berger code recomputed from the
  stored 27-bit erase count equals the stored 5-bit code, likewise for the inverted
  erase-count word, and the erase count is the complement of the inverted one within 27
  bits. A page whose framing is right and that violates a Berger check is rejected with the
  Berger-code error, and one that violates the complement check with the erase-count error.
  So inverting one bit of the erase-count code of a page makes readPage fail with the
  Berger-code error at that page, and makes parseNVM of the image fail with it. The error
  carries no page offset.
\<close>

theorem readPage_erase_count_checks:
  "(\<forall>page n. readPage m buffer offs = Inr (page, n) \<longrightarrow>
      (\<exists>ec eci. readUInt32LE buffer (offs + 4) = Inr ec
         \<and> readUInt32LE buffer (offs + 8) = Inr eci
         \<and> eraseCount (header page) = ec AND NVM3_PAGE_COUNTER_MASK
         \<and> computeBergerCode (ec AND NVM3_PAGE_COUNTER_MASK) NVM3_PAGE_COUNTER_SIZE
             = drop_bit NVM3_PAGE_COUNTER_SIZE ec
         \<and> computeBergerCode (eci AND NVM3_PAGE_COUNTER_MASK) NVM3_PAGE_COUNTER_SIZE
             = drop_bit NVM3_PAGE_COUNTER_SIZE eci
         \<and> int (eraseCount (header page))
             = (NOT (int (eci AND NVM3_PAGE_COUNTER_MASK)) AND int NVM3_PAGE_COUNTER_MASK))
      \<and> (\<forall>j<5. readPage m (flipBit buffer (offs + 7) (3 + j)) offs = Inl BergerCodeError))
   \<and> (\<forall>ec eci. readUInt16LE buffer offs = Inr 1
         \<and> readUInt16LE buffer (offs + 2) = Inr NVM3_PAGE_MAGIC
         \<and> readUInt32LE buffer (offs + 4) = Inr ec
         \<and> readUInt32LE buffer (offs + 8) = Inr eci \<longrightarrow>
        ((computeBergerCode (ec AND NVM3_PAGE_COUNTER_MASK) NVM3_PAGE_COUNTER_SIZE
             \<noteq> drop_bit NVM3_PAGE_COUNTER_SIZE ec
          \<or> computeBergerCode (eci AND NVM3_PAGE_COUNTER_MASK) NVM3_PAGE_COUNTER_SIZE
             \<noteq> drop_bit NVM3_PAGE_COUNTER_SIZE eci)
           \<longrightarrow> readPage m buffer offs = Inl BergerCodeError)
      \<and> (computeBergerCode (ec AND NVM3_PAGE_COUNTER_MASK) NVM3_PAGE_COUNTER_SIZE
             = drop_bit NVM3_PAGE_COUNTER_SIZE ec
          \<and> computeBergerCode (eci AND NVM3_PAGE_COUNTER_MASK) NVM3_PAGE_COUNTER_SIZE
             = drop_bit NVM3_PAGE_COUNTER_SIZE eci
          \<and> int (ec AND NVM3_PAGE_COUNTER_MASK)
             \<noteq> (NOT (int (eci AND NVM3_PAGE_COUNTER_MASK)) AND int NVM3_PAGE_COUNTER_MASK)
           \<longrightarrow> readPage m buffer offs = Inl InvalidEraseCount))
   \<and> (\<forall>r page. parseNVM m buffer = Inr r
         \<and> page \<in> set (applicationPages r @ protocolPages r) \<longrightarrow>
        (\<forall>j<5. parseNVM m (flipBit buffer (offset (header page) + 7) (3 + j))
                 = Inl BergerCodeError))"
proof (intro conjI allI impI)
  fix page n
  assume rp: "readPage m buffer offs = Inr (page, n)"
  from readPage_Inr [OF rp] obtain ec eci where
    r: "readUInt32LE buffer (offs + 4) = Inr ec" "readUInt32LE buffer (offs + 8) = Inr eci"
    and v: "validateBergerCode (ec AND NVM3_PAGE_COUNTER_MASK)
              (drop_bit NVM3_PAGE_COUNTER_SIZE ec) NVM3_PAGE_COUNTER_SIZE = Inr ()"
       "validateBergerCode (eci AND NVM3_PAGE_COUNTER_MASK)
              (drop_bit NVM3_PAGE_COUNTER_SIZE eci) NVM3_PAGE_COUNTER_SIZE = Inr ()"
    and c: "int (ec AND NVM3_PAGE_COUNTER_MASK)
             = (NOT (int (eci AND NVM3_PAGE_COUNTER_MASK)) AND int NVM3_PAGE_COUNTER_MASK)"
    and e: "eraseCount (header page) = ec AND NVM3_PAGE_COUNTER_MASK"
    by fastforce
  from v have "computeBergerCode (ec AND NVM3_PAGE_COUNTER_MASK) NVM3_PAGE_COUNTER_SIZE
             = drop_bit NVM3_PAGE_COUNTER_SIZE ec"
         "computeBergerCode (eci AND NVM3_PAGE_COUNTER_MASK) NVM3_PAGE_COUNTER_SIZE
             = drop_bit NVM3_PAGE_COUNTER_SIZE eci"
    by (simp_all add: validateBergerCode_def split: if_splits)
  with r c e show "\<exists>ec eci. readUInt32LE buffer (offs + 4) = Inr ec
         \<and> readUInt32LE buffer (offs + 8) = Inr eci
         \<and> eraseCount (header page) = ec AND NVM3_PAGE_COUNTER_MASK
         \<and> computeBergerCode (ec AND NVM3_PAGE_COUNTER_MASK) NVM3_PAGE_COUNTER_SIZE
             = drop_bit NVM3_PAGE_COUNTER_SIZE ec
         \<and> computeBergerCode (eci AND NVM3_PAGE_COUNTER_MASK) NVM3_PAGE_COUNTER_SIZE
             = drop_bit NVM3_PAGE_COUNTER_SIZE eci
         \<and> int (eraseCount (header page))
             = (NOT (int (eci AND NVM3_PAGE_COUNTER_MASK)) AND int NVM3_PAGE_COUNTER_MASK)"
    by auto
  fix j :: nat
  assume "j < 5"
  then show "readPage m (flipBit buffer (offs + 7) (3 + j)) offs = Inl BergerCodeError"
    by (rule readPage_flip_code [OF rp])
next
  fix ec eci
  assume h: "readUInt16LE buffer offs = Inr 1
         \<and> readUInt16LE buffer (offs + 2) = Inr NVM3_PAGE_MAGIC
         \<and> readUInt32LE buffer (offs + 4) = Inr ec
         \<and> readUInt32LE buffer (offs + 8) = Inr eci"
  {
    assume "computeBergerCode (ec AND NVM3_PAGE_COUNTER_MASK) NVM3_PAGE_COUNTER_SIZE
             \<noteq> drop_bit NVM3_PAGE_COUNTER_SIZE ec
          \<or> computeBergerCode (eci AND NVM3_PAGE_COUNTER_MASK) NVM3_PAGE_COUNTER_SIZE
             \<noteq> drop_bit NVM3_PAGE_COUNTER_SIZE eci"
    then show "readPage m buffer offs = Inl BergerCodeError"
      using h readPage_berger_fail1 [of buffer offs ec m]
        readPage_berger_fail2 [of buffer offs ec eci m] by blast
  }
  {
    assume "computeBergerCode (ec AND NVM3_PAGE_COUNTER_MASK) NVM3_PAGE_COUNTER_SIZE
             = drop_bit NVM3_PAGE_COUNTER_SIZE ec
          \<and> computeBergerCode (eci AND NVM3_PAGE_COUNTER_MASK) NVM3_PAGE_COUNTER_SIZE
             = drop_bit NVM3_PAGE_COUNTER_SIZE eci
          \<and> int (ec AND NVM3_PAGE_COUNTER_MASK)
             \<noteq> (NOT (int (eci AND NVM3_PAGE_COUNTER_MASK)) AND int NVM3_PAGE_COUNTER_MASK)"
    then show "readPage m buffer offs = Inl InvalidEraseCount"
      using h readPage_complement_fail [of buffer offs ec eci m] by blast
  }
next
  fix r page and j :: nat
  assume "parseNVM m buffer = Inr r \<and> page \<in> set (applicationPages r @ protocolPages r)"
    and "j < 5"
  then show "parseNVM m (flipBit buffer (offset (header page) + 7) (3 + j))
                 = Inl BergerCodeError"
    using parseNVM_flip_code [of m buffer r page j] by blast
qed

definition badBergerPage :: "byte list" where
  \<comment> \<open>An erased page of 2048 bytes whose first erase-count word holds the count 0 with the
      code 26 in place of 27.\<close>
  "badBergerPage = [1, 0, 0x9a, 0xb2, 0, 0, 0, 0xD0, 0xff, 0xff, 0xff, 0x07,
                    0xff, 0xff, 0xff, 0xff, 0xff, 0x5f, 0xff, 0xff] @ replicate 2028 0xff"

lemma berger_mask_minus_1: "computeBergerCode 134217726 27 = 1"
  by (simp add: computeBergerCode_def popcount.simps ceilLog2.simps)

theorem readPage_erase_count_checks_witness:
  "readPage refLayer twoErasedPages 2048
     = Inr (\<lparr> header = defaultPageHeader 2048, objects = [] \<rparr>, 2048)
   \<and> readPage refLayer (flipBit twoErasedPages (2048 + 7) (3 + 0)) 2048 = Inl BergerCodeError
   \<and> parseNVM refLayer (flipBit twoErasedPages (2048 + 7) (3 + 0)) = Inl BergerCodeError
   \<and> readPage refLayer badBergerPage 0 = Inl BergerCodeError
   \<and> readPage refLayer badComplementPage 0 = Inl InvalidEraseCount"
proof -
  note thm1 = readPage_erase_count_checks [of refLayer twoErasedPages 2048]
  from thm1 [THEN conjunct1, rule_format, OF readPage_twoErasedPages(2), THEN conjunct2,
      rule_format, of 0]
  have a: "readPage refLayer (flipBit twoErasedPages (2048 + 7) (3 + 0)) 2048 = Inl BergerCodeError"
    by simp
  have mem: "\<lparr> header = defaultPageHeader 2048, objects = [] \<rparr>
      \<in> set (applicationPages \<lparr> applicationPages = [\<lparr> header = defaultPageHeader 0, objects = [] \<rparr>,
                                   \<lparr> header = defaultPageHeader 2048, objects = [] \<rparr>],
             protocolPages = [], applicationObjects = [], protocolObjects = [] \<rparr>
         @ protocolPages \<lparr> applicationPages = [\<lparr> header = defaultPageHeader 0, objects = [] \<rparr>,
                                   \<lparr> header = defaultPageHeader 2048, objects = [] \<rparr>],
             protocolPages = [], applicationObjects = [], protocolObjects = [] \<rparr>)"
    by simp
  have o: "offset (header \<lparr> header = defaultPageHeader 2048, objects = [] \<rparr>) = 2048"
    by (simp add: defaultPageHeader_def)
  from thm1 [THEN conjunct2, THEN conjunct2, rule_format, OF conjI, OF parseNVM_twoErasedPages mem, of 0]
  have b: "parseNVM refLayer (flipBit twoErasedPages (2048 + 7) (3 + 0)) = Inl BergerCodeError"
    unfolding o by simp
  have rb: "readUInt16LE badBergerPage 0 = Inr 1
         \<and> readUInt16LE badBergerPage (0 + 2) = Inr NVM3_PAGE_MAGIC
         \<and> readUInt32LE badBergerPage (0 + 4) = Inr 0xD0000000
         \<and> readUInt32LE badBergerPage (0 + 8) = Inr 0x07FFFFFF"
    by (simp add: readUInt16LE_def readUInt32LE_def badBergerPage_def NVM3_PAGE_MAGIC_def)
  have mb: "computeBergerCode (0xD0000000 AND NVM3_PAGE_COUNTER_MASK) NVM3_PAGE_COUNTER_SIZE
             \<noteq> drop_bit NVM3_PAGE_COUNTER_SIZE 0xD0000000"
    by (simp add: mask_value NVM3_PAGE_COUNTER_SIZE_def berger_zero)
  from readPage_erase_count_checks [of refLayer badBergerPage 0, THEN conjunct2, THEN conjunct1,
      rule_format, OF rb, THEN conjunct1, rule_format, OF disjI1, OF mb]
  have c: "readPage refLayer badBergerPage 0 = Inl BergerCodeError" .
  have rc: "readUInt16LE badComplementPage 0 = Inr 1
         \<and> readUInt16LE badComplementPage (0 + 2) = Inr NVM3_PAGE_MAGIC
         \<and> readUInt32LE badComplementPage (0 + 4) = Inr 0xD8000000
         \<and> readUInt32LE badComplementPage (0 + 8) = Inr 0x0FFFFFFE"
    by (simp add: readUInt16LE_def readUInt32LE_def badComplementPage_def NVM3_PAGE_MAGIC_def)
  have mc: "computeBergerCode (0xD8000000 AND NVM3_PAGE_COUNTER_MASK) NVM3_PAGE_COUNTER_SIZE
             = drop_bit NVM3_PAGE_COUNTER_SIZE 0xD8000000
          \<and> computeBergerCode (0x0FFFFFFE AND NVM3_PAGE_COUNTER_MASK) NVM3_PAGE_COUNTER_SIZE
             = drop_bit NVM3_PAGE_COUNTER_SIZE 0x0FFFFFFE
          \<and> int (0xD8000000 AND NVM3_PAGE_COUNTER_MASK)
             \<noteq> (NOT (int (0x0FFFFFFE AND NVM3_PAGE_COUNTER_MASK)) AND int NVM3_PAGE_COUNTER_MASK)"
    by (simp add: mask_value NVM3_PAGE_COUNTER_SIZE_def berger_zero berger_mask_minus_1)
  from readPage_erase_count_checks [of refLayer badComplementPage 0, THEN conjunct2, THEN conjunct1,
      rule_format, OF rc, THEN conjunct2, rule_format, OF mc]
  have d: "readPage refLayer badComplementPage 0 = Inl InvalidEraseCount" .
  from readPage_twoErasedPages(2) a b c d show ?thesis by simp
qed

text \<open>
  The same failure value results from a damaged page at offset 0 and from one at offset 2048:
  the failure does not tell which page was damaged.
\<close>

theorem parseNVM_berger_offset_counterexample:
  "parseNVM refLayer (flipBit twoErasedPages (0 + 7) 3) = Inl BergerCodeError
   \<and> parseNVM refLayer (flipBit twoErasedPages (2048 + 7) 3) = Inl BergerCodeError"
proof -
  have m0: "\<lparr> header = defaultPageHeader 0, objects = [] \<rparr>
      \<in> set (applicationPages \<lparr> applicationPages = [\<lparr> header = defaultPageHeader 0, objects = [] \<rparr>,
                                   \<lparr> header = defaultPageHeader 2048, objects = [] \<rparr>],
             protocolPages = [], applicationObjects = [], protocolObjects = [] \<rparr>
         @ protocolPages \<lparr> applicationPages = [\<lparr> header = defaultPageHeader 0, objects = [] \<rparr>,
                                   \<lparr> header = defaultPageHeader 2048, objects = [] \<rparr>],
             protocolPages = [], applicationObjects = [], protocolObjects = [] \<rparr>)"
    by simp
  have m1: "\<lparr> header = defaultPageHeader 2048, objects = [] \<rparr>
      \<in> set (applicationPages \<lparr> applicationPages = [\<lparr> header = defaultPageHeader 0, objects = [] \<rparr>,
                                   \<lparr> header = defaultPageHeader 2048, objects = [] \<rparr>],
             protocolPages = [], applicationObjects = [], protocolObjects = [] \<rparr>
         @ protocolPages \<lparr> applicationPages = [\<lparr> header = defaultPageHeader 0, objects = [] \<rparr>,
                                   \<lparr> header = defaultPageHeader 2048, objects = [] \<rparr>],
             protocolPages = [], applicationObjects = [], protocolObjects = [] \<rparr>)"
    by simp
  have j: "(0::nat) < 5" by simp
  from parseNVM_flip_code [OF parseNVM_twoErasedPages m0 j]
    parseNVM_flip_code [OF parseNVM_twoErasedPages m1 j]
  show ?thesis by (simp add: defaultPageHeader_def)
qed

definition withoutStatus :: "NVMPage \<Rightarrow> NVMPage" where
  \<comment> \<open>The page with its status field blanked: what is left to compare of two pages that
      may differ in their status only.\<close>
  "withoutStatus p = p\<lparr>header := (header p)\<lparr>status := 0\<rparr>\<rparr>"

lemma withoutStatus_simps [simp]:
  "objects (withoutStatus p) = objects p"
  "offset (header (withoutStatus p)) = offset (header p)"
  "eraseCount (header (withoutStatus p)) = eraseCount (header p)"
  "withoutStatus (p\<lparr>header := (header p)\<lparr>status := s\<rparr>\<rparr>) = withoutStatus p"
  by (simp_all add: withoutStatus_def)

lemma comparePages_withoutStatus [simp]:
  "comparePages (withoutStatus p) (withoutStatus q) = comparePages p q"
  by (simp add: comparePages_def)

lemma insertPage_withoutStatus:
  "map withoutStatus (insertPage p qs) = insertPage (withoutStatus p) (map withoutStatus qs)"
  by (induction qs) auto

lemma foldl_insertPage_withoutStatus:
  "map withoutStatus (foldl (\<lambda>acc p. insertPage p acc) acc ps)
     = foldl (\<lambda>acc p. insertPage p acc) (map withoutStatus acc) (map withoutStatus ps)"
  by (induction ps arbitrary: acc) (auto simp: insertPage_withoutStatus)

lemma sortPages_withoutStatus:
  "map withoutStatus (sortPages ps) = sortPages (map withoutStatus ps)"
  by (simp add: sortPages_def foldl_insertPage_withoutStatus)

lemma foldl_objects_concat:
  "foldl (\<lambda>acc page. acc @ objects page) acc ps = acc @ concat (map objects ps)"
  by (induction ps arbitrary: acc) auto

lemma concat_objects_withoutStatus:
  "concat (map objects (map withoutStatus ps)) = concat (map objects ps)"
  by (simp add: comp_def)

lemma filter_withoutStatus:
  "filter (\<lambda>p. P (offset (header p))) (map withoutStatus ps)
     = map withoutStatus (filter (\<lambda>p. P (offset (header p))) ps)"
  by (induction ps) auto

lemma processPages_objects:
  "applicationObjects (processPages ps) =
     compressObjects (concat (map objects (sortPages
       (filter (\<lambda>p. offset (header p) < ZWAVE_APPLICATION_NVM_SIZE) ps))))"
  "protocolObjects (processPages ps) =
     compressObjects (concat (map objects (sortPages
       (filter (\<lambda>p. offset (header p) \<ge> ZWAVE_APPLICATION_NVM_SIZE) ps))))"
  by (simp_all add: processPages_def Let_def foldl_objects_concat)

lemma processPages_withoutStatus:
  "applicationObjects (processPages (map withoutStatus ps)) = applicationObjects (processPages ps)"
  "protocolObjects (processPages (map withoutStatus ps)) = protocolObjects (processPages ps)"
proof -
  have a: "concat (map objects (sortPages (filter (\<lambda>p. offset (header p) < ZWAVE_APPLICATION_NVM_SIZE)
                (map withoutStatus ps))))
        = concat (map objects (sortPages (filter (\<lambda>p. offset (header p) < ZWAVE_APPLICATION_NVM_SIZE) ps)))"
    unfolding filter_withoutStatus [of "\<lambda>x. x < ZWAVE_APPLICATION_NVM_SIZE"]
      sortPages_withoutStatus [symmetric]
    by (rule concat_objects_withoutStatus)
  have b: "concat (map objects (sortPages (filter (\<lambda>p. offset (header p) \<ge> ZWAVE_APPLICATION_NVM_SIZE)
                (map withoutStatus ps))))
        = concat (map objects (sortPages (filter (\<lambda>p. offset (header p) \<ge> ZWAVE_APPLICATION_NVM_SIZE) ps)))"
    unfolding filter_withoutStatus [of "\<lambda>x. x \<ge> ZWAVE_APPLICATION_NVM_SIZE"]
      sortPages_withoutStatus [symmetric]
    by (rule concat_objects_withoutStatus)
  show "applicationObjects (processPages (map withoutStatus ps)) = applicationObjects (processPages ps)"
    unfolding processPages_objects a ..
  show "protocolObjects (processPages (map withoutStatus ps)) = protocolObjects (processPages ps)"
    unfolding processPages_objects b ..
qed

lemma readPages_status:
  assumes "readPages m b1 offs = Inr ps1" and "length b2 = length b1"
    and "\<forall>i\<ge>offs. b2 ! i \<noteq> b1 ! i \<longrightarrow>
           (\<exists>p\<in>set ps1. offset (header p) + 12 \<le> i \<and> i < offset (header p) + 16)"
  shows "\<exists>ps2. readPages m b2 offs = Inr ps2 \<and> map withoutStatus ps2 = map withoutStatus ps1"
  using assms
proof (induction m b1 offs arbitrary: ps1 rule: readPages.induct)
  case (1 m b1 offs)
  show ?case
  proof (cases "offs < length b1")
    case False
    with "1.prems" show ?thesis by (simp add: readPages_Inr_Nil)
  next
    case True
    from readPages_ConsD [OF "1.prems"(1) True] obtain p0 n rest where
      rp: "readPage m b1 offs = Inr (p0, n)" and rs: "readPages m b1 (offs + n) = Inr rest"
      and ps: "ps1 = p0 # rest" by blast
    have lt2: "offs < length b2" using True "1.prems"(2) by simp
    have n512: "512 \<le> n" and p0: "offset (header p0) = offs"
      using readPage_bytesRead [OF rp] by simp_all
    have rest_ge: "offs + n \<le> offset (header p)" if "p \<in> set rest" for p
      using readPages_offsets [OF rs that] .
    have ag: "\<forall>i. offs \<le> i \<and> i < offs + n \<and> \<not> (offs + 12 \<le> i \<and> i < offs + 16)
                \<longrightarrow> b2 ! i = b1 ! i"
    proof (intro allI impI, rule ccontr)
      fix i
      assume i: "offs \<le> i \<and> i < offs + n \<and> \<not> (offs + 12 \<le> i \<and> i < offs + 16)"
        and "b2 ! i \<noteq> b1 ! i"
      with "1.prems"(3) obtain p where p: "p \<in> set ps1"
        "offset (header p) + 12 \<le> i" "i < offset (header p) + 16" by blast
      from p(1) ps have "p = p0 \<or> p \<in> set rest" by auto
      then show False
      proof
        assume "p = p0"
        with p p0 i show False by simp
      next
        assume "p \<in> set rest"
        from rest_ge [OF this] p i show False by simp
      qed
    qed
    from readPage_agree_status [OF rp "1.prems"(2) ag] obtain stat where
      rp2: "readPage m b2 offs = Inr (p0\<lparr>header := (header p0)\<lparr>status := stat\<rparr>\<rparr>, n)" by blast
    have tail: "\<forall>i\<ge>offs + n. b2 ! i \<noteq> b1 ! i \<longrightarrow>
           (\<exists>p\<in>set rest. offset (header p) + 12 \<le> i \<and> i < offset (header p) + 16)"
    proof (intro allI impI)
      fix i
      assume i: "offs + n \<le> i" and d: "b2 ! i \<noteq> b1 ! i"
      from i have "offs \<le> i" by simp
      with "1.prems"(3) d obtain p where p: "p \<in> set ps1"
        "offset (header p) + 12 \<le> i" "i < offset (header p) + 16" by blast
      have "p \<noteq> p0" using p p0 i n512 by auto
      with p ps show "\<exists>p\<in>set rest. offset (header p) + 12 \<le> i \<and> i < offset (header p) + 16"
        by auto
    qed
    have "\<exists>ps2. readPages m b2 (offs + n) = Inr ps2
            \<and> map withoutStatus ps2 = map withoutStatus rest"
      using "1.IH" [OF True rp, of rest] rs tail "1.prems"(2) by simp
    then obtain ps2 where
      r2: "readPages m b2 (offs + n) = Inr ps2" "map withoutStatus ps2 = map withoutStatus rest"
      by blast
    have "readPages m b2 offs = Inr (p0\<lparr>header := (header p0)\<lparr>status := stat\<rparr>\<rparr> # ps2)"
      unfolding readPages_step [OF lt2] by (simp add: rp2 r2)
    with r2 ps show ?thesis by simp
  qed
qed

lemma processPages_pages_withoutStatus:
  "map withoutStatus (applicationPages (processPages ps))
     = applicationPages (processPages (map withoutStatus ps))"
  "map withoutStatus (protocolPages (processPages ps))
     = protocolPages (processPages (map withoutStatus ps))"
  unfolding processPages_def Let_def
  by (simp_all add: sortPages_withoutStatus
      filter_withoutStatus [of "\<lambda>x. x < ZWAVE_APPLICATION_NVM_SIZE"]
      filter_withoutStatus [of "\<lambda>x. x \<ge> ZWAVE_APPLICATION_NVM_SIZE"])

text \<open>
  C10. parseNVM does not look at the status of a page: the status word is read into the page
  header and nothing else depends on it. Two images of the same length that differ only
  inside the status words of their pages parse alike: if one parses, so does the other,
  with the same pages up to their status fields and with identical applicationObjects and
  protocolObjects. So the objects of a page whose status is Bad, Bad_ErasePending or
  OK_ErasePending count exactly as those of a page whose status is OK.
\<close>

theorem parseNVM_ignores_page_status:
  assumes "parseNVM m b1 = Inr r1" and "length b2 = length b1"
    and "\<forall>i. b2 ! i \<noteq> b1 ! i \<longrightarrow>
           (\<exists>p\<in>set (applicationPages r1 @ protocolPages r1).
              offset (header p) + 12 \<le> i \<and> i < offset (header p) + 16)"
  shows "\<exists>r2. parseNVM m b2 = Inr r2
          \<and> applicationObjects r2 = applicationObjects r1
          \<and> protocolObjects r2 = protocolObjects r1
          \<and> map withoutStatus (applicationPages r2) = map withoutStatus (applicationPages r1)
          \<and> map withoutStatus (protocolPages r2) = map withoutStatus (protocolPages r1)"
proof -
  from assms(1) obtain ps1 where ps1: "readPages m b1 0 = Inr ps1" "r1 = processPages ps1"
    by (auto simp: parseNVM_Inr)
  have "\<forall>i\<ge>0. b2 ! i \<noteq> b1 ! i \<longrightarrow>
           (\<exists>p\<in>set ps1. offset (header p) + 12 \<le> i \<and> i < offset (header p) + 16)"
    using assms(3) set_processPages [of ps1] unfolding ps1(2) by blast
  from readPages_status [OF ps1(1) assms(2) this] obtain ps2 where
    ps2: "readPages m b2 0 = Inr ps2" "map withoutStatus ps2 = map withoutStatus ps1" by blast
  have p: "parseNVM m b2 = Inr (processPages ps2)" using ps2(1) by (simp add: parseNVM_def)
  have "applicationObjects (processPages ps2) = applicationObjects (processPages ps1)"
    "protocolObjects (processPages ps2) = protocolObjects (processPages ps1)"
    using processPages_withoutStatus [of ps1] processPages_withoutStatus [of ps2] ps2(2)
    by simp_all
  moreover have "map withoutStatus (applicationPages (processPages ps2))
                  = map withoutStatus (applicationPages (processPages ps1))"
    "map withoutStatus (protocolPages (processPages ps2))
                  = map withoutStatus (protocolPages (processPages ps1))"
    unfolding processPages_pages_withoutStatus ps2(2) by simp_all
  ultimately show ?thesis using p ps1(2) by simp
qed

definition object7 :: NVMObject where
  "object7 = \<lparr> key = 7, type = DataSmall, fragmentType = NoFragment, data = Some [1, 2, 3, 4] \<rparr>"

definition pageWithObject :: "byte list" where
  \<comment> \<open>A page with the default header (status OK) that holds \<^verbatim>\<open>object7\<close> as the
      reference layer writes it.\<close>
  "pageWithObject = defaultHeader @ [7, 7, 0, 4, 1, 2, 3, 4] @ replicate 2020 0xff"

definition pageWithObjectBad :: "byte list" where
  \<comment> \<open>The same page with the status Bad (0x0000ffff).\<close>
  "pageWithObjectBad = pageWithObject[14 := 0, 15 := 0]"

lemma refWriteObject_object7: "refWriteObject object7 = Inr [7, 7, 0, 4, 1, 2, 3, 4]"
  by (simp add: refWriteObject_def object7_def Let_def typeCode_def fragCode_def isLarge_def
      payload_def)

lemma refReadObjects_object7:
  "refReadObjects (7 # 7 # 0 # 4 # 1 # 2 # 3 # 4 # replicate n 0xff) = Inr [object7]"
proof -
  have "drop (alignWord (4 + 4)) (7 # 7 # 0 # 4 # 1 # 2 # 3 # 4 # replicate n (0xff :: byte))
          = replicate n 0xff"
    by (simp add: alignWord_def)
  then show ?thesis
    by (subst refReadObjects.simps)
       (simp add: Let_def typeOfCode_def fragOfCode_def refReadObjects_erased object7_def)
qed

lemma compressObjects_object7: "compressObjects [object7] = [(7, object7)]"
  by (simp add: compressObjects_def compressStep_def Let_def object7_def)

lemma parseNVM_pageWithObject:
  "parseNVM refLayer pageWithObject
     = Inr \<lparr> applicationPages = [\<lparr> header = defaultPageHeader 0, objects = [object7] \<rparr>],
             protocolPages = [], applicationObjects = [(7, object7)], protocolObjects = [] \<rparr>"
proof -
  have len: "length pageWithObject = 2048"
    by (simp add: pageWithObject_def defaultHeader_def)
  have rp: "readPage refLayer pageWithObject 0
              = Inr (\<lparr> header = defaultPageHeader 0, objects = [object7] \<rparr>, 2048)"
    using readPage_default_page [of "[7, 7, 0, 4, 1, 2, 3, 4] @ replicate 2020 0xff" refLayer "[]" "[]"]
    by (simp add: pageWithObject_def refLayer_def refReadObjects_object7)
  have "readPages refLayer pageWithObject (0 + 2048) = Inr []"
    by (rule readPages_Inr_Nil) (simp add: len)
  then have "readPages refLayer pageWithObject 0
               = Inr [\<lparr> header = defaultPageHeader 0, objects = [object7] \<rparr>]"
    by (subst readPages_step) (simp_all add: len rp)
  then show ?thesis
    by (simp add: parseNVM_def processPages_def Let_def defaultPageHeader_def
        ZWAVE_APPLICATION_NVM_SIZE_def sortPages_def compressObjects_object7)
qed

theorem parseNVM_ignores_page_status_witness:
  "parseNVM refLayer pageWithObject
     = Inr \<lparr> applicationPages = [\<lparr> header = defaultPageHeader 0, objects = [object7] \<rparr>],
             protocolPages = [], applicationObjects = [(7, object7)], protocolObjects = [] \<rparr>
   \<and> readUInt32LE pageWithObject 12 = Inr PageStatus_OK
   \<and> readUInt32LE pageWithObjectBad 12 = Inr PageStatus_Bad
   \<and> (\<exists>r2. parseNVM refLayer pageWithObjectBad = Inr r2
          \<and> applicationObjects r2 = [(7, object7)] \<and> protocolObjects r2 = [])"
proof -
  have len: "length pageWithObjectBad = length pageWithObject"
    by (simp add: pageWithObjectBad_def)
  have diff: "\<forall>i. pageWithObjectBad ! i \<noteq> pageWithObject ! i \<longrightarrow>
           (\<exists>p\<in>set (applicationPages \<lparr> applicationPages = [\<lparr> header = defaultPageHeader 0, objects = [object7] \<rparr>],
             protocolPages = [], applicationObjects = [(7, object7)], protocolObjects = [] \<rparr>
              @ protocolPages \<lparr> applicationPages = [\<lparr> header = defaultPageHeader 0, objects = [object7] \<rparr>],
             protocolPages = [], applicationObjects = [(7, object7)], protocolObjects = [] \<rparr>).
              offset (header p) + 12 \<le> i \<and> i < offset (header p) + 16)"
  proof (intro allI impI)
    fix i
    assume d: "pageWithObjectBad ! i \<noteq> pageWithObject ! i"
    have "i = 14 \<or> i = 15"
      by (rule ccontr) (use d in \<open>simp add: pageWithObjectBad_def\<close>)
    then show "\<exists>p\<in>set (applicationPages \<lparr> applicationPages = [\<lparr> header = defaultPageHeader 0, objects = [object7] \<rparr>],
             protocolPages = [], applicationObjects = [(7, object7)], protocolObjects = [] \<rparr>
              @ protocolPages \<lparr> applicationPages = [\<lparr> header = defaultPageHeader 0, objects = [object7] \<rparr>],
             protocolPages = [], applicationObjects = [(7, object7)], protocolObjects = [] \<rparr>).
              offset (header p) + 12 \<le> i \<and> i < offset (header p) + 16"
      by (auto simp: defaultPageHeader_def)
  qed
  from parseNVM_ignores_page_status [OF parseNVM_pageWithObject len diff]
  have "\<exists>r2. parseNVM refLayer pageWithObjectBad = Inr r2
          \<and> applicationObjects r2 = [(7, object7)] \<and> protocolObjects r2 = []"
    by auto
  moreover have "readUInt32LE pageWithObject 12 = Inr PageStatus_OK"
    "readUInt32LE pageWithObjectBad 12 = Inr PageStatus_Bad"
    by (simp_all add: readUInt32LE_def pageWithObjectBad_def pageWithObject_def defaultHeader_def
        PageStatus_OK_def PageStatus_Bad_def)
  ultimately show ?thesis using parseNVM_pageWithObject by simp
qed

lemma sliceBuffer_embedded:
  "e \<le> length page \<Longrightarrow>
     sliceBuffer (pre @ page @ post) (length pre + s) (length pre + e) = sliceBuffer page s e"
  by (simp add: sliceBuffer_def)

text \<open>A page is read alike wherever it lies in a buffer; only the offset in its header differs.\<close>

lemma readPage_embedded:
  assumes rp: "readPage m page 0 = Inr (p, n)"
  shows "readPage m (pre @ page @ post) (length pre)
           = Inr (p\<lparr>header := (header p)\<lparr>offset := length pre\<rparr>\<rparr>, n)"
proof -
  let ?b = "pre @ page @ post"
  from readPage_Inr [OF rp] obtain ec eci stat devInfo formatInfo where
    r: "readUInt16LE page 0 = Inr 1"
       "readUInt16LE page (0 + 2) = Inr NVM3_PAGE_MAGIC"
       "readUInt32LE page (0 + 4) = Inr ec"
       "readUInt32LE page (0 + 8) = Inr eci"
       "readUInt32LE page (0 + 12) = Inr stat"
       "readUInt16LE page (0 + 16) = Inr devInfo"
       "readUInt16LE page (0 + 18) = Inr formatInfo"
    and v: "validateBergerCode (ec AND NVM3_PAGE_COUNTER_MASK)
              (drop_bit NVM3_PAGE_COUNTER_SIZE ec) NVM3_PAGE_COUNTER_SIZE = Inr ()"
       "validateBergerCode (eci AND NVM3_PAGE_COUNTER_MASK)
              (drop_bit NVM3_PAGE_COUNTER_SIZE eci) NVM3_PAGE_COUNTER_SIZE = Inr ()"
    and c: "int (ec AND NVM3_PAGE_COUNTER_MASK)
             = (NOT (int (eci AND NVM3_PAGE_COUNTER_MASK)) AND int NVM3_PAGE_COUNTER_MASK)"
    and n: "n = min (pageSizeFromBits (drop_bit 13 devInfo AND 7)) FLASH_MAX_PAGE_SIZE"
    and le: "0 + n \<le> length page"
    and ro: "readObjects m (sliceBuffer page (0 + 20) (0 + n)) = Inr (objects p)"
    and h: "header p = \<lparr> offset = 0, version = 1,
                eraseCount = ec AND NVM3_PAGE_COUNTER_MASK,
                status = stat, encrypted = (formatInfo AND 1 = 0),
                pageSize = pageSizeFromBits (drop_bit 13 devInfo AND 7),
                writeSize = drop_bit 11 devInfo AND 1,
                memoryMapped = (drop_bit 12 devInfo AND 1 \<noteq> 0),
                deviceFamily = devInfo AND 0x7ff \<rparr>"
    by blast
  have n512: "512 \<le> n" using readPage_bytesRead(1) [OF rp] .
  have l: "0 + 2 \<le> length page" "2 + 2 \<le> length page" "4 + 4 \<le> length page"
    "8 + 4 \<le> length page" "12 + 4 \<le> length page" "16 + 2 \<le> length page"
    "18 + 2 \<le> length page"
    using le n512 by simp_all
  note r' = r [unfolded add_0]
  have r2: "readUInt16LE ?b (length pre) = Inr 1"
       "readUInt16LE ?b (length pre + 2) = Inr NVM3_PAGE_MAGIC"
       "readUInt32LE ?b (length pre + 4) = Inr ec"
       "readUInt32LE ?b (length pre + 8) = Inr eci"
       "readUInt32LE ?b (length pre + 12) = Inr stat"
       "readUInt16LE ?b (length pre + 16) = Inr devInfo"
       "readUInt16LE ?b (length pre + 18) = Inr formatInfo"
    using readUInt16LE_append [OF l(1), of pre post, unfolded add_0_right] r'(1)
      trans [OF readUInt16LE_append [OF l(2)] r'(2)]
      trans [OF readUInt32LE_append [OF l(3)] r'(3)]
      trans [OF readUInt32LE_append [OF l(4)] r'(4)]
      trans [OF readUInt32LE_append [OF l(5)] r'(5)]
      trans [OF readUInt16LE_append [OF l(6)] r'(6)]
      trans [OF readUInt16LE_append [OF l(7)] r'(7)]
    by (simp_all only:)
  have v2: "computeBergerCode (ec AND NVM3_PAGE_COUNTER_MASK) NVM3_PAGE_COUNTER_SIZE
           = drop_bit NVM3_PAGE_COUNTER_SIZE ec"
       "computeBergerCode (eci AND NVM3_PAGE_COUNTER_MASK) NVM3_PAGE_COUNTER_SIZE
           = drop_bit NVM3_PAGE_COUNTER_SIZE eci"
    using v by (simp_all add: validateBergerCode_def split: if_splits)
  have le2: "length pre + n \<le> length ?b" using le by simp
  have sl: "sliceBuffer ?b (length pre + 20) (length pre + n) = sliceBuffer page (0 + 20) (0 + n)"
    using sliceBuffer_embedded [of n page pre post 20] le by simp
  show ?thesis
    unfolding readPage_header_ok [of ?b "length pre", OF r2(1-3) v2(1) r2(4) v2(2) c r2(5-7) n le2]
      sl ro
    by (simp add: h)
qed

text \<open>
  The order of section 4.4 of the specification: erase count ascending, and among pages of
  equal erase count the offset ascending.
\<close>

definition ringOrder :: "NVMPage \<Rightarrow> NVMPage \<Rightarrow> bool" where
  "ringOrder p q \<longleftrightarrow>
     eraseCount (header p) < eraseCount (header q)
     \<or> (eraseCount (header p) = eraseCount (header q) \<and> offset (header p) \<le> offset (header q))"

lemma comparePages_le: "comparePages p q \<le> 0 \<longleftrightarrow> ringOrder p q"
  by (auto simp: comparePages_def ringOrder_def)

lemma comparePages_less: "comparePages p q < 0 \<longleftrightarrow> \<not> ringOrder q p"
  by (auto simp: comparePages_def ringOrder_def)

lemma ringOrder_total: "ringOrder p q \<or> ringOrder q p"
  by (auto simp: ringOrder_def)

lemma ringOrder_trans: "ringOrder p q \<Longrightarrow> ringOrder q r \<Longrightarrow> ringOrder p r"
  by (auto simp: ringOrder_def)

lemma set_insertPage: "set (insertPage p qs) = insert p (set qs)"
  by (induction qs) auto

lemma sorted_insertPage:
  "sorted_wrt ringOrder qs \<Longrightarrow> sorted_wrt ringOrder (insertPage p qs)"
proof (induction qs)
  case Nil
  then show ?case by simp
next
  case (Cons q qs)
  show ?case
  proof (cases "comparePages p q < 0")
    case True
    then have pq: "ringOrder p q" using ringOrder_total [of p q] by (simp add: comparePages_less)
    with Cons.prems show ?thesis using True by (auto intro: ringOrder_trans)
  next
    case False
    then have "ringOrder q p" by (simp add: comparePages_less)
    with Cons show ?thesis using False by (auto simp: set_insertPage)
  qed
qed

lemma sorted_foldl_insertPage:
  "sorted_wrt ringOrder acc \<Longrightarrow> sorted_wrt ringOrder (foldl (\<lambda>acc p. insertPage p acc) acc ps)"
  by (induction ps arbitrary: acc) (auto simp: sorted_insertPage)

lemma sorted_sortPages: "sorted_wrt ringOrder (sortPages ps)"
  by (simp add: sortPages_def sorted_foldl_insertPage)

lemma processPages_fields:
  "applicationPages (processPages ps)
     = sortPages (filter (\<lambda>p. offset (header p) < ZWAVE_APPLICATION_NVM_SIZE) ps)"
  "protocolPages (processPages ps)
     = sortPages (filter (\<lambda>p. offset (header p) \<ge> ZWAVE_APPLICATION_NVM_SIZE) ps)"
  "applicationObjects (processPages ps)
     = compressObjects (concat (map objects (applicationPages (processPages ps))))"
  "protocolObjects (processPages ps)
     = compressObjects (concat (map objects (protocolPages (processPages ps))))"
  by (simp_all add: processPages_def Let_def foldl_objects_concat)

lemma sortPages_two:
  "sortPages [p, q] = (if comparePages q p < 0 then [q, p] else [p, q])"
  by (simp add: sortPages_def)

lemma compressObjects_two_small:
  assumes "key a = k" "key b = k" "type a = DataSmall" "type b = DataSmall"
  shows "compressObjects [a, b] = [(k, b)]"
  using assms by (simp add: compressObjects_def compressStep_def Let_def)

text \<open>
  C4. parseNVM sorts the pages of each region by erase count ascending and, among pages of
  equal erase count, by offset ascending: the page lists it returns are sorted in this
  order and are permutations of the pages read below and from offset 0x3000, and the live
  maps are compacted from the objects of the pages in this order. So (scenario S5) when the
  image holds two application pages with erase counts 5 and 3, each with one write of key
  7, the page with erase count 3 comes first and the live value of key 7 is the one
  written on the page with erase count 5.
\<close>

theorem parseNVM_ring_order:
  "(\<forall>r. parseNVM m buffer = Inr r \<longrightarrow>
      (\<exists>ps. readPages m buffer 0 = Inr ps
        \<and> sorted_wrt ringOrder (applicationPages r)
        \<and> mset (applicationPages r)
            = mset (filter (\<lambda>p. offset (header p) < ZWAVE_APPLICATION_NVM_SIZE) ps)
        \<and> sorted_wrt ringOrder (protocolPages r)
        \<and> mset (protocolPages r)
            = mset (filter (\<lambda>p. offset (header p) \<ge> ZWAVE_APPLICATION_NVM_SIZE) ps)
        \<and> applicationObjects r = compressObjects (concat (map objects (applicationPages r)))
        \<and> protocolObjects r = compressObjects (concat (map objects (protocolPages r)))))
   \<and> (\<forall>pA pB oA oB.
        (readPages m buffer 0 = Inr [pA, pB] \<or> readPages m buffer 0 = Inr [pB, pA])
        \<and> eraseCount (header pA) = 5 \<and> eraseCount (header pB) = 3
        \<and> offset (header pA) < ZWAVE_APPLICATION_NVM_SIZE
        \<and> offset (header pB) < ZWAVE_APPLICATION_NVM_SIZE
        \<and> objects pA = [oA] \<and> objects pB = [oB] \<and> key oA = 7 \<and> key oB = 7
        \<and> type oA = DataSmall \<and> type oB = DataSmall
       \<longrightarrow> (\<exists>r. parseNVM m buffer = Inr r \<and> applicationPages r = [pB, pA]
                \<and> applicationObjects r = [(7, oA)]))"
proof (intro conjI allI impI)
  fix r
  assume "parseNVM m buffer = Inr r"
  then obtain ps where ps: "readPages m buffer 0 = Inr ps" "r = processPages ps"
    by (auto simp: parseNVM_Inr)
  show "\<exists>ps. readPages m buffer 0 = Inr ps
        \<and> sorted_wrt ringOrder (applicationPages r)
        \<and> mset (applicationPages r)
            = mset (filter (\<lambda>p. offset (header p) < ZWAVE_APPLICATION_NVM_SIZE) ps)
        \<and> sorted_wrt ringOrder (protocolPages r)
        \<and> mset (protocolPages r)
            = mset (filter (\<lambda>p. offset (header p) \<ge> ZWAVE_APPLICATION_NVM_SIZE) ps)
        \<and> applicationObjects r = compressObjects (concat (map objects (applicationPages r)))
        \<and> protocolObjects r = compressObjects (concat (map objects (protocolPages r)))"
    using ps(1) processPages_fields(3,4) [of ps] unfolding ps(2)
    by (intro exI [of _ ps])
       (simp add: processPages_fields(1,2) sorted_sortPages mset_sortPages)
next
  fix pA pB oA oB
  assume h: "(readPages m buffer 0 = Inr [pA, pB] \<or> readPages m buffer 0 = Inr [pB, pA])
        \<and> eraseCount (header pA) = 5 \<and> eraseCount (header pB) = 3
        \<and> offset (header pA) < ZWAVE_APPLICATION_NVM_SIZE
        \<and> offset (header pB) < ZWAVE_APPLICATION_NVM_SIZE
        \<and> objects pA = [oA] \<and> objects pB = [oB] \<and> key oA = 7 \<and> key oB = 7
        \<and> type oA = DataSmall \<and> type oB = DataSmall"
  then have c: "comparePages pB pA < 0" "\<not> comparePages pA pB < 0"
    by (simp_all add: comparePages_def)
  have s: "sortPages [pA, pB] = [pB, pA]" "sortPages [pB, pA] = [pB, pA]"
    using c by (simp_all add: sortPages_two)
  have co: "compressObjects [oB, oA] = [(7, oA)]"
    using h by (intro compressObjects_two_small) simp_all
  from h have "readPages m buffer 0 = Inr [pA, pB] \<or> readPages m buffer 0 = Inr [pB, pA]"
    by simp
  then show "\<exists>r. parseNVM m buffer = Inr r \<and> applicationPages r = [pB, pA]
                \<and> applicationObjects r = [(7, oA)]"
  proof
    assume "readPages m buffer 0 = Inr [pA, pB]"
    then have "parseNVM m buffer = Inr (processPages [pA, pB])" by (simp add: parseNVM_def)
    moreover have "applicationPages (processPages [pA, pB]) = [pB, pA]"
      using h by (simp add: processPages_fields(1) s)
    moreover from this have "applicationObjects (processPages [pA, pB]) = [(7, oA)]"
      using h co by (simp add: processPages_fields(3))
    ultimately show ?thesis by blast
  next
    assume "readPages m buffer 0 = Inr [pB, pA]"
    then have "parseNVM m buffer = Inr (processPages [pB, pA])" by (simp add: parseNVM_def)
    moreover have "applicationPages (processPages [pB, pA]) = [pB, pA]"
      using h by (simp add: processPages_fields(1) s)
    moreover from this have "applicationObjects (processPages [pB, pA]) = [(7, oA)]"
      using h co by (simp add: processPages_fields(3))
    ultimately show ?thesis by blast
  qed
qed

definition objectA :: NVMObject where
  "objectA = \<lparr> key = 7, type = DataSmall, fragmentType = NoFragment, data = Some [0x41] \<rparr>"

definition objectB :: NVMObject where
  "objectB = \<lparr> key = 7, type = DataSmall, fragmentType = NoFragment, data = Some [0x42] \<rparr>"

definition pageCount5 :: "byte list" where
  \<comment> \<open>A page with erase count 5 that holds \<^verbatim>\<open>objectA\<close>.\<close>
  "pageCount5 = [1, 0, 0x9a, 0xb2, 5, 0, 0, 0xC8, 0xfa, 0xff, 0xff, 0x17,
                 0xff, 0xff, 0xff, 0xff, 0xff, 0x5f, 0xff, 0xff]
                @ [7, 7, 0, 1, 0x41, 0xff, 0xff, 0xff] @ replicate 2020 0xff"

definition pageCount3 :: "byte list" where
  \<comment> \<open>A page with erase count 3 that holds \<^verbatim>\<open>objectB\<close>.\<close>
  "pageCount3 = [1, 0, 0x9a, 0xb2, 3, 0, 0, 0xC8, 0xfc, 0xff, 0xff, 0x17,
                 0xff, 0xff, 0xff, 0xff, 0xff, 0x5f, 0xff, 0xff]
                @ [7, 7, 0, 1, 0x42, 0xff, 0xff, 0xff] @ replicate 2020 0xff"

definition ringImage :: "byte list" where
  "ringImage = pageCount5 @ pageCount3"

definition decodedPage :: "nat \<Rightarrow> nat \<Rightarrow> NVMObject list \<Rightarrow> NVMPage" where
  \<comment> \<open>A decoded page with the default settings, a given offset and erase count.\<close>
  "decodedPage offs ec objs =
     \<lparr> header = (defaultPageHeader offs)\<lparr>eraseCount := ec\<rparr>, objects = objs \<rparr>"

lemma refReadObjects_small1:
  "x \<noteq> 0xff \<Longrightarrow>
   refReadObjects (7 # 7 # 0 # 1 # x # 0xff # 0xff # 0xff # replicate n 0xff)
     = Inr [\<lparr> key = 7, type = DataSmall, fragmentType = NoFragment, data = Some [x] \<rparr>]"
proof -
  have "drop (alignWord (4 + 1)) (7 # 7 # 0 # 1 # x # 0xff # 0xff # 0xff # replicate n (0xff :: byte))
          = replicate n 0xff"
    by (simp add: alignWord_def)
  then show ?thesis
    by (subst refReadObjects.simps)
       (simp add: Let_def typeOfCode_def fragOfCode_def refReadObjects_erased)
qed

lemma berger_values:
  "computeBergerCode 5 27 = 25" "computeBergerCode 134217722 27 = 2"
  "computeBergerCode 3 27 = 25" "computeBergerCode 134217724 27 = 2"
  by (simp_all add: computeBergerCode_def popcount.simps ceilLog2.simps)

lemma berger_value_3: "computeBergerCode (Suc (Suc (Suc 0))) 27 = 25"
  using berger_values(3) by (simp only: numeral_3_eq_3)

lemma readPage_pageCount5:
  "readPage refLayer pageCount5 0 = Inr (decodedPage 0 5 [objectA], 2048)"
proof -
  have len: "0 + 2048 \<le> length pageCount5" by (simp add: pageCount5_def)
  have r: "readUInt16LE pageCount5 0 = Inr 1"
       "readUInt16LE pageCount5 (0 + 2) = Inr NVM3_PAGE_MAGIC"
       "readUInt32LE pageCount5 (0 + 4) = Inr 0xC8000005"
       "readUInt32LE pageCount5 (0 + 8) = Inr 0x17FFFFFA"
       "readUInt32LE pageCount5 (0 + 12) = Inr 0xffffffff"
       "readUInt16LE pageCount5 (0 + 16) = Inr 0x5fff"
       "readUInt16LE pageCount5 (0 + 18) = Inr 0xffff"
    by (simp_all add: readUInt16LE_def readUInt32LE_def pageCount5_def NVM3_PAGE_MAGIC_def)
  have b: "computeBergerCode (0xC8000005 AND NVM3_PAGE_COUNTER_MASK) NVM3_PAGE_COUNTER_SIZE
           = drop_bit NVM3_PAGE_COUNTER_SIZE 0xC8000005"
      "computeBergerCode (0x17FFFFFA AND NVM3_PAGE_COUNTER_MASK) NVM3_PAGE_COUNTER_SIZE
           = drop_bit NVM3_PAGE_COUNTER_SIZE 0x17FFFFFA"
      "int (0xC8000005 AND NVM3_PAGE_COUNTER_MASK)
           = (NOT (int (0x17FFFFFA AND NVM3_PAGE_COUNTER_MASK)) AND int NVM3_PAGE_COUNTER_MASK)"
    by (simp_all add: mask_value NVM3_PAGE_COUNTER_SIZE_def berger_values)
  have n: "2048 = min (pageSizeFromBits (drop_bit 13 0x5fff AND 7)) FLASH_MAX_PAGE_SIZE"
    by (simp add: pageSizeFromBits_def NVM3_MIN_PAGE_SIZE_def FLASH_MAX_PAGE_SIZE_def)
  have s: "sliceBuffer pageCount5 (0 + 20) (0 + 2048)
             = 7 # 7 # 0 # 1 # 0x41 # 0xff # 0xff # 0xff # replicate 2020 0xff"
    by (simp add: sliceBuffer_def pageCount5_def)
  show ?thesis
    unfolding readPage_header_ok [of pageCount5 0, OF r(1-3) b(1) r(4) b(2) b(3) r(5-7) n len] s
    by (simp add: refLayer_def refReadObjects_small1 mask_value pageSizeFromBits_def
        NVM3_MIN_PAGE_SIZE_def decodedPage_def defaultPageHeader_def objectA_def)
qed

lemma readPage_pageCount3:
  "readPage refLayer pageCount3 0 = Inr (decodedPage 0 3 [objectB], 2048)"
proof -
  have len: "0 + 2048 \<le> length pageCount3" by (simp add: pageCount3_def)
  have r: "readUInt16LE pageCount3 0 = Inr 1"
       "readUInt16LE pageCount3 (0 + 2) = Inr NVM3_PAGE_MAGIC"
       "readUInt32LE pageCount3 (0 + 4) = Inr 0xC8000003"
       "readUInt32LE pageCount3 (0 + 8) = Inr 0x17FFFFFC"
       "readUInt32LE pageCount3 (0 + 12) = Inr 0xffffffff"
       "readUInt16LE pageCount3 (0 + 16) = Inr 0x5fff"
       "readUInt16LE pageCount3 (0 + 18) = Inr 0xffff"
    by (simp_all add: readUInt16LE_def readUInt32LE_def pageCount3_def NVM3_PAGE_MAGIC_def)
  have b: "computeBergerCode (0xC8000003 AND NVM3_PAGE_COUNTER_MASK) NVM3_PAGE_COUNTER_SIZE
           = drop_bit NVM3_PAGE_COUNTER_SIZE 0xC8000003"
      "computeBergerCode (0x17FFFFFC AND NVM3_PAGE_COUNTER_MASK) NVM3_PAGE_COUNTER_SIZE
           = drop_bit NVM3_PAGE_COUNTER_SIZE 0x17FFFFFC"
      "int (0xC8000003 AND NVM3_PAGE_COUNTER_MASK)
           = (NOT (int (0x17FFFFFC AND NVM3_PAGE_COUNTER_MASK)) AND int NVM3_PAGE_COUNTER_MASK)"
    by (simp_all add: mask_value NVM3_PAGE_COUNTER_SIZE_def berger_values berger_value_3)
  have n: "2048 = min (pageSizeFromBits (drop_bit 13 0x5fff AND 7)) FLASH_MAX_PAGE_SIZE"
    by (simp add: pageSizeFromBits_def NVM3_MIN_PAGE_SIZE_def FLASH_MAX_PAGE_SIZE_def)
  have s: "sliceBuffer pageCount3 (0 + 20) (0 + 2048)
             = 7 # 7 # 0 # 1 # 0x42 # 0xff # 0xff # 0xff # replicate 2020 0xff"
    by (simp add: sliceBuffer_def pageCount3_def)
  show ?thesis
    unfolding readPage_header_ok [of pageCount3 0, OF r(1-3) b(1) r(4) b(2) b(3) r(5-7) n len] s
    by (simp add: refLayer_def refReadObjects_small1 mask_value pageSizeFromBits_def
        NVM3_MIN_PAGE_SIZE_def decodedPage_def defaultPageHeader_def objectB_def)
qed

lemma readPages_ringImage:
  "readPages refLayer ringImage 0
     = Inr [decodedPage 0 5 [objectA], decodedPage 2048 3 [objectB]]"
proof -
  have l5: "length pageCount5 = 2048" by (simp add: pageCount5_def)
  have l3: "length pageCount3 = 2048" by (simp add: pageCount3_def)
  have len: "length ringImage = 4096" by (simp add: ringImage_def l5 l3)
  have r0: "readPage refLayer ringImage 0 = Inr (decodedPage 0 5 [objectA], 2048)"
    using readPage_embedded [OF readPage_pageCount5, of "[]" pageCount3]
    by (simp add: ringImage_def decodedPage_def defaultPageHeader_def)
  have r1: "readPage refLayer ringImage 2048 = Inr (decodedPage 2048 3 [objectB], 2048)"
    using readPage_embedded [OF readPage_pageCount3, of pageCount5 "[]"]
    by (simp add: ringImage_def decodedPage_def defaultPageHeader_def l5)
  have "readPages refLayer ringImage (2048 + 2048) = Inr []"
    by (rule readPages_Inr_Nil) (simp add: len)
  then have "readPages refLayer ringImage 2048 = Inr [decodedPage 2048 3 [objectB]]"
    by (subst readPages_step) (simp_all add: len r1)
  then have "readPages refLayer ringImage (0 + 2048) = Inr [decodedPage 2048 3 [objectB]]"
    by simp
  then show ?thesis
    by (subst readPages_step) (simp_all add: len r0)
qed

theorem parseNVM_ring_order_witness:
  "readPages refLayer ringImage 0
     = Inr [decodedPage 0 5 [objectA], decodedPage 2048 3 [objectB]]
   \<and> (\<exists>r. parseNVM refLayer ringImage = Inr r
        \<and> applicationPages r = [decodedPage 2048 3 [objectB], decodedPage 0 5 [objectA]]
        \<and> sorted_wrt ringOrder (applicationPages r)
        \<and> applicationObjects r = [(7, objectA)])"
proof -
  have h: "(readPages refLayer ringImage 0
             = Inr [decodedPage 0 5 [objectA], decodedPage 2048 3 [objectB]]
           \<or> readPages refLayer ringImage 0
             = Inr [decodedPage 2048 3 [objectB], decodedPage 0 5 [objectA]])
        \<and> eraseCount (header (decodedPage 0 5 [objectA])) = 5
        \<and> eraseCount (header (decodedPage 2048 3 [objectB])) = 3
        \<and> offset (header (decodedPage 0 5 [objectA])) < ZWAVE_APPLICATION_NVM_SIZE
        \<and> offset (header (decodedPage 2048 3 [objectB])) < ZWAVE_APPLICATION_NVM_SIZE
        \<and> objects (decodedPage 0 5 [objectA]) = [objectA]
        \<and> objects (decodedPage 2048 3 [objectB]) = [objectB]
        \<and> key objectA = 7 \<and> key objectB = 7
        \<and> type objectA = DataSmall \<and> type objectB = DataSmall"
    by (simp add: readPages_ringImage decodedPage_def defaultPageHeader_def
        ZWAVE_APPLICATION_NVM_SIZE_def objectA_def objectB_def)
  from parseNVM_ring_order [of refLayer ringImage, THEN conjunct2, rule_format, OF h]
  obtain r where r: "parseNVM refLayer ringImage = Inr r"
    "applicationPages r = [decodedPage 2048 3 [objectB], decodedPage 0 5 [objectA]]"
    "applicationObjects r = [(7, objectA)]" by blast
  from parseNVM_ring_order [of refLayer ringImage, THEN conjunct1, rule_format, OF r(1)]
  have "sorted_wrt ringOrder (applicationPages r)" by blast
  with r readPages_ringImage show ?thesis by blast
qed

definition blit :: "byte list \<Rightarrow> nat \<Rightarrow> byte list \<Rightarrow> byte list" where
  \<comment> \<open>What a successful \<^verbatim>\<open>copy\<close> leaves in the target.\<close>
  "blit target start source =
     (if start \<ge> length target then target
      else take start target @ take (length target - start) source
           @ drop (start + length source) target)"

lemma copy_nonneg: "0 \<le> start \<Longrightarrow> copy source target start = Inr (blit target (nat start) source)"
  by (simp add: copy_def blit_def Let_def)

lemma length_blit [simp]: "length (blit target start source) = length target"
  by (auto simp: blit_def min_def)

lemma take_blit: "k \<le> start \<Longrightarrow> take k (blit target start source) = take k target"
  by (simp add: blit_def min_def)

lemma drop_blit:
  "start + length source \<le> k \<Longrightarrow> drop k (blit target start source) = drop k target"
  by (auto simp: blit_def min_def)


lemma and_not_3: "x AND NOT 3 = (x div 4) * 4" for x :: int
proof -
  have "NOT (3::int) = NOT (mask 2)" by (simp add: mask_eq_exp_minus_1)
  moreover have e: "\<And>n. 2 \<le> n \<Longrightarrow> Suc (Suc (n - 2)) = n" by simp
  have "x AND NOT (mask 2) = push_bit 2 (drop_bit 2 x)"
    by (rule bit_eqI) (auto simp: bit_simps e not_less)
  ultimately have "x AND NOT 3 = push_bit 2 (drop_bit 2 x)" by simp
  then show ?thesis by (simp add: push_bit_eq_mult drop_bit_eq_div)
qed

lemma incrementOffset_eq:
  "incrementOffset ps by s =
     s\<lparr>offsetInPage := offsetInPage s + int (alignWord by),
       remainingSpace := int ps - (offsetInPage s + int (alignWord by))\<rparr>"
proof -
  have a: "int by + int NVM3_WORD_SIZE - 1 = int (by + 3)" by (simp add: NVM3_WORD_SIZE_def)
  have b: "int NVM3_WORD_SIZE - 1 = 3" by (simp add: NVM3_WORD_SIZE_def)
  have "(int by + int NVM3_WORD_SIZE - 1) AND NOT (int NVM3_WORD_SIZE - 1)
          = int (by + 3) AND NOT 3" by (simp only: a b)
  also have "\<dots> = (int (by + 3) div 4) * 4" by (rule and_not_3)
  also have "\<dots> = int (alignWord by)" by (simp add: alignWord_def zdiv_int)
  finally show ?thesis by (simp only: incrementOffset_def Let_def)
qed

lemma alignWord_ge: "n \<le> alignWord n"
  by (simp add: alignWord_def)

text \<open>The body of the loop over the fragments, up to the move to the next page.\<close>

definition writeFragment :: "ObjectLayer \<Rightarrow> nat \<Rightarrow> NVMObject \<Rightarrow> WriterState \<Rightarrow> error + WriterState" where
  "writeFragment m ps fragment s =
     bindE (writeObject m fragment) (\<lambda>objBuffer.
     bindE (copy objBuffer (currentPage s) (offsetInPage s)) (\<lambda>page'.
     Inr (incrementOffset ps (length objBuffer)
            (s\<lparr>pages := (pages s)[nat (pageIndex s) := page']\<rparr>))))"

lemma writeFragments_Cons:
  "writeFragments m ps several (f # rest) s =
     bindE (writeFragment m ps f s) (\<lambda>s2.
       if several then bindE (nextPage ps s2) (\<lambda>s3. writeFragments m ps several rest s3)
       else writeFragments m ps several rest s2)"
  by (cases "writeObject m f"; cases "copy (projr (writeObject m f)) (currentPage s) (offsetInPage s)")
     (simp_all add: writeFragment_def Let_def)

lemma writeFragment_Inr:
  assumes "0 \<le> offsetInPage s"
  shows "writeFragment m ps f s = Inr s2 \<longleftrightarrow>
     (\<exists>buf. writeObject m f = Inr buf \<and>
        s2 = s\<lparr>pages := (pages s)[nat (pageIndex s)
                    := blit (pages s ! nat (pageIndex s)) (nat (offsetInPage s)) buf],
               offsetInPage := offsetInPage s + int (alignWord (length buf)),
               remainingSpace := int ps - (offsetInPage s + int (alignWord (length buf)))\<rparr>)"
  using assms
  by (auto simp: writeFragment_def bindE_eq_Inr copy_nonneg incrementOffset_eq currentPage_def)

lemma writeFragment_Inl:
  assumes "0 \<le> offsetInPage s"
  shows "writeFragment m ps f s = Inl e \<longleftrightarrow> writeObject m f = Inl e"
  using assms
  by (auto simp: writeFragment_def bindE_eq_Inl copy_nonneg)

lemma writeFragments_single: "writeFragments m ps False [f] s = writeFragment m ps f s"
  by (simp add: writeFragment_def Let_def)

declare writeFragments.simps(2) [simp del]

lemma placeObject_small_unfold:
  assumes "(type obj = CounterSmall
               \<and> remainingSpace s < int (NVM3_OBJ_HEADER_SIZE_SMALL + NVM_COUNTER_SIZE))
            \<or> (type obj = DataSmall
               \<and> remainingSpace s < int (NVM3_OBJ_HEADER_SIZE_SMALL + length (payload obj)))"
  shows "placeObject m ps obj s = bindE (nextPage ps s) (\<lambda>s1. writeFragment m ps obj s1)"
proof -
  have "type obj \<noteq> Deleted" using assms by auto
  then have "placeObject m ps obj s
               = bindE (nextPage ps s) (\<lambda>s'. writeFragments m ps False [obj] s')"
    using assms unfolding placeObject_def by (simp only: if_True if_False)
  also have "\<dots> = bindE (nextPage ps s) (\<lambda>s1. writeFragment m ps obj s1)"
    by (simp only: writeFragments_single)
  finally show ?thesis .
qed




lemma writeFragments_several_Cons:
  "writeFragments m ps True (f # rest) s =
     bindE (writeFragment m ps f s) (\<lambda>s2.
     bindE (nextPage ps s2) (\<lambda>s3. writeFragments m ps True rest s3))"
  by (simp add: writeFragments_Cons)

lemma writeFragments_several:
  assumes "writeFragments m ps True frs s = Inr s'" and "0 \<le> pageIndex s"
    and "0 \<le> offsetInPage s"
  shows "pageIndex s' = pageIndex s + int (length frs)
       \<and> length (pages s') = length (pages s)
       \<and> (frs \<noteq> [] \<longrightarrow> offsetInPage s' = 20 \<and> pageIndex s' < int (length (pages s)))
       \<and> (\<forall>k<length frs. \<exists>buf. writeObject m (frs ! k) = Inr buf
             \<and> pages s' ! (nat (pageIndex s) + k)
                 = blit (pages s ! (nat (pageIndex s) + k))
                     (if k = 0 then nat (offsetInPage s) else 20) buf)
       \<and> (\<forall>i. i < nat (pageIndex s) \<or> nat (pageIndex s) + length frs \<le> i
             \<longrightarrow> pages s' ! i = pages s ! i)"
  using assms
proof (induction frs arbitrary: s)
  case Nil
  then show ?case by simp
next
  case (Cons f rest)
  from Cons.prems(1) obtain s2 s3 where
    w: "writeFragment m ps f s = Inr s2" and n: "nextPage ps s2 = Inr s3"
    and r: "writeFragments m ps True rest s3 = Inr s'"
    by (auto simp: writeFragments_several_Cons bindE_eq_Inr)
  from w obtain buf where buf: "writeObject m f = Inr buf" and
    s2: "s2 = s\<lparr>pages := (pages s)[nat (pageIndex s)
                    := blit (pages s ! nat (pageIndex s)) (nat (offsetInPage s)) buf],
               offsetInPage := offsetInPage s + int (alignWord (length buf)),
               remainingSpace := int ps - (offsetInPage s + int (alignWord (length buf)))\<rparr>"
    unfolding writeFragment_Inr [OF Cons.prems(3)] by blast
  from n have s3: "pageIndex s2 + 1 < int (length (pages s2))"
    "s3 = s2\<lparr>pageIndex := pageIndex s2 + 1, offsetInPage := 20, remainingSpace := int ps - 20\<rparr>"
    by (simp_all add: nextPage_Inr)
  let ?i = "nat (pageIndex s)"
  have pi3: "pageIndex s3 = pageIndex s + 1" "nat (pageIndex s3) = Suc ?i"
    using s2 s3 Cons.prems(2) by simp_all
  have o3: "offsetInPage s3 = 20" using s3 by simp
  have pg3: "pages s3 = (pages s)[?i := blit (pages s ! ?i) (nat (offsetInPage s)) buf]"
    using s2 s3 by simp
  have ilt: "?i < length (pages s)" using s3(1) s2 Cons.prems(2) by simp
  have p3: "0 \<le> pageIndex s3" "0 \<le> offsetInPage s3" using pi3 o3 Cons.prems(2) by simp_all
  note ih = Cons.IH [OF r p3]
  have ih1: "pageIndex s' = pageIndex s3 + int (length rest)" using ih by blast
  have ih2: "length (pages s') = length (pages s3)" using ih by blast
  have ih3: "rest \<noteq> [] \<longrightarrow> offsetInPage s' = 20 \<and> pageIndex s' < int (length (pages s3))"
    using ih by blast
  have ih4: "\<forall>k<length rest. \<exists>buf. writeObject m (rest ! k) = Inr buf
             \<and> pages s' ! (Suc ?i + k)
                 = blit (pages s3 ! (Suc ?i + k)) (if k = 0 then nat (offsetInPage s3) else 20) buf"
    using ih unfolding pi3(2) by blast
  have ih5: "\<forall>i. i < Suc ?i \<or> Suc ?i + length rest \<le> i \<longrightarrow> pages s' ! i = pages s3 ! i"
    using ih unfolding pi3(2) by blast
  have c1: "pageIndex s' = pageIndex s + int (length (f # rest))"
    using ih1 pi3 by simp
  have c2: "length (pages s') = length (pages s)" using ih2 pg3 by simp
  have c3: "offsetInPage s' = 20 \<and> pageIndex s' < int (length (pages s))"
  proof (cases rest)
    case Nil
    with r have "s' = s3" by simp
    with o3 s3 s2 show ?thesis by simp
  next
    case (Cons a list)
    with ih3 pg3 show ?thesis by simp
  qed
  have c4: "\<exists>buf. writeObject m ((f # rest) ! k) = Inr buf
             \<and> pages s' ! (?i + k)
                 = blit (pages s ! (?i + k)) (if k = 0 then nat (offsetInPage s) else 20) buf"
    if k: "k < length (f # rest)" for k
  proof (cases k)
    case 0
    have "pages s' ! ?i = pages s3 ! ?i" using ih5 by simp
    also have "\<dots> = blit (pages s ! ?i) (nat (offsetInPage s)) buf"
      using pg3 ilt by simp
    finally show ?thesis using buf 0 by simp
  next
    case (Suc j)
    with k have j: "j < length rest" by simp
    from ih4 j obtain b where b: "writeObject m (rest ! j) = Inr b"
      "pages s' ! (Suc ?i + j)
         = blit (pages s3 ! (Suc ?i + j)) (if j = 0 then nat (offsetInPage s3) else 20) b"
      by blast
    have "pages s3 ! (Suc ?i + j) = pages s ! (Suc ?i + j)" using pg3 by simp
    moreover have "(if j = 0 then nat (offsetInPage s3) else 20) = 20" using o3 by simp
    ultimately show ?thesis using b Suc by simp
  qed
  have c5: "pages s' ! i = pages s ! i"
    if i: "i < ?i \<or> ?i + length (f # rest) \<le> i" for i
  proof -
    from i have "i < Suc ?i \<or> Suc ?i + length rest \<le> i" by auto
    with ih5 have "pages s' ! i = pages s3 ! i" by blast
    also have "\<dots> = pages s ! i" using pg3 i by auto
    finally show ?thesis .
  qed
  from c1 c2 c3 c4 c5 show ?case by blast
qed

lemma writeFragments_several_ok:
  assumes "\<forall>f\<in>set frs. \<exists>buf. writeObject m f = Inr buf"
    and "pageIndex s + int (length frs) < int (length (pages s))"
    and "0 \<le> offsetInPage s"
  shows "\<exists>s'. writeFragments m ps True frs s = Inr s'"
  using assms
proof (induction frs arbitrary: s)
  case Nil
  then show ?case by simp
next
  case (Cons f rest)
  from Cons.prems(1) obtain buf where buf: "writeObject m f = Inr buf" by auto
  let ?s2 = "s\<lparr>pages := (pages s)[nat (pageIndex s)
                    := blit (pages s ! nat (pageIndex s)) (nat (offsetInPage s)) buf],
               offsetInPage := offsetInPage s + int (alignWord (length buf)),
               remainingSpace := int ps - (offsetInPage s + int (alignWord (length buf)))\<rparr>"
  have w: "writeFragment m ps f s = Inr ?s2"
    unfolding writeFragment_Inr [OF Cons.prems(3)] using buf by blast
  let ?s3 = "?s2\<lparr>pageIndex := pageIndex ?s2 + 1, offsetInPage := 20,
                   remainingSpace := int ps - 20\<rparr>"
  have n: "nextPage ps ?s2 = Inr ?s3"
    unfolding nextPage_Inr using Cons.prems(2) by simp
  have "\<exists>s'. writeFragments m ps True rest ?s3 = Inr s'"
    using Cons.prems by (intro Cons.IH) auto
  then show ?case
    unfolding writeFragments_several_Cons by (simp add: w n)
qed

lemma placeObject_large_unfold:
  assumes "type obj = CounterLarge \<or> type obj = DataLarge"
  shows "placeObject m ps obj s =
     bindE (fragmentLargeObject m obj (remainingSpace s) (int ps - int NVM3_PAGE_HEADER_SIZE))
       (\<lambda>fragments. writeFragments m ps (length fragments > 1) fragments s)"
  using assms unfolding placeObject_def by auto

lemma length_concat_le:
  assumes "\<forall>x\<in>set xs. length x \<le> n"
  shows "length (concat xs) \<le> length xs * n"
  using assms by (induction xs) auto

text \<open>
  One round of the loop of writeObjects for a large object that fragmentLargeObject returns
  in more than one fragment.
\<close>

lemma placeObject_large_round:
  assumes "type obj = CounterLarge \<or> type obj = DataLarge"
    and "fragmentLargeObject m obj (remainingSpace s) (int ps - int NVM3_PAGE_HEADER_SIZE)
           = Inr frs"
    and "0 \<le> pageIndex s" and "0 \<le> offsetInPage s"
  shows "(1 < length frs \<longrightarrow>
           (\<forall>s'. placeObject m ps obj s = Inr s' \<longrightarrow>
              pageIndex s' = pageIndex s + int (length frs)
            \<and> pageIndex s' < int (length (pages s))
            \<and> offsetInPage s' = 20
            \<and> (\<forall>k<length frs. \<exists>buf. writeObject m (frs ! k) = Inr buf
                  \<and> pages s' ! (nat (pageIndex s) + k)
                      = blit (pages s ! (nat (pageIndex s) + k))
                          (if k = 0 then nat (offsetInPage s) else 20) buf)
            \<and> (\<forall>i. i < nat (pageIndex s) \<or> nat (pageIndex s) + length frs \<le> i
                  \<longrightarrow> pages s' ! i = pages s ! i))
         \<and> (int (length (pages s)) \<le> pageIndex s + int (length frs)
              \<longrightarrow> (\<forall>s'. placeObject m ps obj s \<noteq> Inr s'))
         \<and> ((\<forall>f\<in>set frs. \<exists>buf. writeObject m f = Inr buf)
              \<and> pageIndex s + int (length frs) < int (length (pages s))
              \<longrightarrow> (\<exists>s'. placeObject m ps obj s = Inr s')))"
proof (intro conjI impI allI)
  note u = placeObject_large_unfold [OF assms(1), of m ps s, unfolded assms(2) bindE_Inr]
  {
    fix s'
    assume several: "1 < length frs" and r: "placeObject m ps obj s = Inr s'"
    from r several have w: "writeFragments m ps True frs s = Inr s'" unfolding u by simp
    note f = writeFragments_several [OF w assms(3,4)]
    from several have ne: "frs \<noteq> []" by auto
    show "pageIndex s' = pageIndex s + int (length frs)" using f by blast
    show "pageIndex s' < int (length (pages s))" using f ne by blast
    show "offsetInPage s' = 20" using f ne by blast
    show "\<And>i. i < nat (pageIndex s) \<or> nat (pageIndex s) + length frs \<le> i
                  \<Longrightarrow> pages s' ! i = pages s ! i" using f by blast
    fix k
    assume "k < length frs"
    then show "\<exists>buf. writeObject m (frs ! k) = Inr buf
                  \<and> pages s' ! (nat (pageIndex s) + k)
                      = blit (pages s ! (nat (pageIndex s) + k))
                          (if k = 0 then nat (offsetInPage s) else 20) buf"
      using f by blast
  }
  {
    fix s'
    assume several: "1 < length frs"
      and short: "int (length (pages s)) \<le> pageIndex s + int (length frs)"
    show "placeObject m ps obj s \<noteq> Inr s'"
    proof
      assume "placeObject m ps obj s = Inr s'"
      with several have w: "writeFragments m ps True frs s = Inr s'" unfolding u by simp
      from several have ne: "frs \<noteq> []" by auto
      from writeFragments_several [OF w assms(3,4)] ne
      have "pageIndex s + int (length frs) < int (length (pages s))" by simp
      with short show False by simp
    qed
  }
  {
    assume several: "1 < length frs"
      and ok: "(\<forall>f\<in>set frs. \<exists>buf. writeObject m f = Inr buf)
              \<and> pageIndex s + int (length frs) < int (length (pages s))"
    from writeFragments_several_ok [of frs m s ps] ok assms(4)
    show "\<exists>s'. placeObject m ps obj s = Inr s'" unfolding u using several by simp
  }
qed

lemma chunks_short: "xs \<noteq> [] \<Longrightarrow> length xs \<le> n \<Longrightarrow> chunks n xs = [xs]"
  by (cases xs) auto


definition neededSpace :: "ObjectLayer \<Rightarrow> NVMObject \<Rightarrow> nat" where
  \<comment> \<open>The space that writeObjects asks for before it puts a small object on the current page.\<close>
  "neededSpace m obj =
     NVM3_OBJ_HEADER_SIZE_SMALL
     + (if type obj = CounterSmall then NVM_COUNTER_SIZE else length (payload obj))"

definition smallObjects :: "ObjectLayer \<Rightarrow> nat \<Rightarrow> NVMObject list \<Rightarrow> bool" where
  \<comment> \<open>Every entry is Deleted or a small object that the object layer writes in no more bytes
      than writeObjects asks for, and in no more than a page body.\<close>
  "smallObjects m ps objs \<longleftrightarrow>
     (\<forall>obj\<in>set objs. type obj = Deleted
        \<or> ((type obj = CounterSmall \<or> type obj = DataSmall)
            \<and> (\<exists>buf. writeObject m obj = Inr buf
                  \<and> length buf \<le> neededSpace m obj
                  \<and> length buf + NVM3_PAGE_HEADER_SIZE \<le> ps)))"

definition writerOK :: "nat \<Rightarrow> WriterState \<Rightarrow> bool" where
  \<comment> \<open>What holds of the writer's state from the first call of nextPage on.\<close>
  "writerOK ps s \<longleftrightarrow>
     0 \<le> pageIndex s \<and> pageIndex s < int (length (pages s)) \<and> 20 \<le> offsetInPage s
     \<and> remainingSpace s = int ps - offsetInPage s"

definition spaceUsed :: "nat \<Rightarrow> WriterState \<Rightarrow> int" where
  \<comment> \<open>The page bodies before the current page, and the current one up to the offset.\<close>
  "spaceUsed ps s = pageIndex s * (int ps - 20) + min (offsetInPage s - 20) (int ps - 20)"

lemma placeObject_small_fit_unfold:
  assumes "type obj = CounterSmall \<or> type obj = DataSmall"
    and "\<not> ((type obj = CounterSmall
               \<and> remainingSpace s < int (NVM3_OBJ_HEADER_SIZE_SMALL + NVM_COUNTER_SIZE))
            \<or> (type obj = DataSmall
               \<and> remainingSpace s < int (NVM3_OBJ_HEADER_SIZE_SMALL + length (payload obj))))"
  shows "placeObject m ps obj s = writeFragment m ps obj s"
proof -
  have t: "type obj \<noteq> Deleted" "\<not> (type obj = CounterLarge \<or> type obj = DataLarge)"
    using assms(1) by auto
  show ?thesis
    unfolding placeObject_def using t assms(2)
    by (simp only: if_False writeFragments_single)
qed

lemma placeObject_small_step:
  assumes ok: "writerOK ps s" and ps: "20 \<le> ps"
    and small: "type obj = CounterSmall \<or> type obj = DataSmall"
    and buf: "writeObject m obj = Inr buf" "length buf \<le> neededSpace m obj"
      "length buf + NVM3_PAGE_HEADER_SIZE \<le> ps"
  shows "(\<forall>e. placeObject m ps obj s = Inl e \<longrightarrow> e = NotEnoughPages)
       \<and> (\<forall>s'. placeObject m ps obj s = Inr s' \<longrightarrow>
             writerOK ps s' \<and> length (pages s') = length (pages s)
             \<and> spaceUsed ps s + int (length buf) \<le> spaceUsed ps s')"
proof (cases "(type obj = CounterSmall
               \<and> remainingSpace s < int (NVM3_OBJ_HEADER_SIZE_SMALL + NVM_COUNTER_SIZE))
            \<or> (type obj = DataSmall
               \<and> remainingSpace s < int (NVM3_OBJ_HEADER_SIZE_SMALL + length (payload obj)))")
  case True
  note u = placeObject_small_unfold [OF True, where ps = ps and m = m]
  have z: "int (length buf) \<le> int ps - 20"
    using buf(3) by (simp add: NVM3_PAGE_HEADER_SIZE_def)
  have a: "int (length buf) \<le> int (alignWord (length buf))"
    using alignWord_ge [of "length buf"] by simp
  show ?thesis
  proof (intro conjI allI impI)
    fix e
    assume "placeObject m ps obj s = Inl e"
    then show "e = NotEnoughPages"
      unfolding u using buf(1)
      by (auto simp: bindE_eq_Inl nextPage_Inl nextPage_Inr writeFragment_Inl)
  next
    fix s'
    assume "placeObject m ps obj s = Inr s'"
    then obtain s1 where n: "nextPage ps s = Inr s1" and w: "writeFragment m ps obj s1 = Inr s'"
      unfolding u by (auto simp: bindE_eq_Inr)
    from n have s1: "pageIndex s + 1 < int (length (pages s))"
      "s1 = s\<lparr>pageIndex := pageIndex s + 1, offsetInPage := 20, remainingSpace := int ps - 20\<rparr>"
      by (simp_all add: nextPage_Inr)
    have o: "0 \<le> offsetInPage s1" using s1 by simp
    from w buf(1) have
      s': "s' = s1\<lparr>pages := (pages s1)[nat (pageIndex s1)
                    := blit (pages s1 ! nat (pageIndex s1)) (nat (offsetInPage s1)) buf],
               offsetInPage := offsetInPage s1 + int (alignWord (length buf)),
               remainingSpace := int ps - (offsetInPage s1 + int (alignWord (length buf)))\<rparr>"
      unfolding writeFragment_Inr [OF o] by simp
    show "writerOK ps s'" using ok s1 s' by (simp add: writerOK_def)
    show "length (pages s') = length (pages s)" using s1 s' by simp
    have "spaceUsed ps s \<le> pageIndex s * (int ps - 20) + (int ps - 20)"
      by (simp add: spaceUsed_def)
    moreover have "spaceUsed ps s' = (pageIndex s + 1) * (int ps - 20)
                      + min (int (alignWord (length buf))) (int ps - 20)"
      using s1 s' by (simp add: spaceUsed_def)
    moreover have "int (length buf) \<le> min (int (alignWord (length buf))) (int ps - 20)"
      using z a by simp
    moreover have "(pageIndex s + 1) * (int ps - 20) = pageIndex s * (int ps - 20) + (int ps - 20)"
      by (simp add: algebra_simps)
    ultimately show "spaceUsed ps s + int (length buf) \<le> spaceUsed ps s'"
      by linarith
  qed
next
  case False
  note u = placeObject_small_fit_unfold [OF small False, where ps = ps and m = m]
  have o: "0 \<le> offsetInPage s" using ok by (simp add: writerOK_def)
  have need: "int (neededSpace m obj) \<le> remainingSpace s"
    using False small by (auto simp: neededSpace_def)
  then have fit: "offsetInPage s + int (length buf) \<le> int ps"
    using buf(2) ok by (simp add: writerOK_def)
  have a: "int (length buf) \<le> int (alignWord (length buf))"
    using alignWord_ge [of "length buf"] by simp
  show ?thesis
  proof (intro conjI allI impI)
    fix e
    assume "placeObject m ps obj s = Inl e"
    then show "e = NotEnoughPages"
      unfolding u using buf(1) by (simp add: writeFragment_Inl [OF o])
  next
    fix s'
    assume "placeObject m ps obj s = Inr s'"
    with buf(1) have
      s': "s' = s\<lparr>pages := (pages s)[nat (pageIndex s)
                    := blit (pages s ! nat (pageIndex s)) (nat (offsetInPage s)) buf],
               offsetInPage := offsetInPage s + int (alignWord (length buf)),
               remainingSpace := int ps - (offsetInPage s + int (alignWord (length buf)))\<rparr>"
      unfolding u writeFragment_Inr [OF o] by simp
    show "writerOK ps s'" using ok s' by (simp add: writerOK_def)
    show "length (pages s') = length (pages s)" using s' by simp
    have "spaceUsed ps s' = pageIndex s * (int ps - 20)
              + min (offsetInPage s + int (alignWord (length buf)) - 20) (int ps - 20)"
      using s' by (simp add: spaceUsed_def)
    moreover have "min (offsetInPage s - 20) (int ps - 20) + int (length buf)
              \<le> min (offsetInPage s + int (alignWord (length buf)) - 20) (int ps - 20)"
      using fit a by simp
    ultimately show "spaceUsed ps s + int (length buf) \<le> spaceUsed ps s'"
      by (simp add: spaceUsed_def)
  qed
qed




lemma writeFragments_several_exhausted:
  assumes "\<forall>f\<in>set frs. \<exists>buf. writeObject m f = Inr buf"
    and "0 \<le> offsetInPage s"
    and "pageIndex s < int (length (pages s))"
    and "int (length (pages s)) \<le> pageIndex s + int (length frs)"
  shows "writeFragments m ps True frs s = Inl NotEnoughPages"
  using assms
proof (induction frs arbitrary: s)
  case Nil
  then show ?case by simp
next
  case (Cons f rest)
  from Cons.prems(1) obtain buf where buf: "writeObject m f = Inr buf" by auto
  let ?s2 = "s\<lparr>pages := (pages s)[nat (pageIndex s)
                    := blit (pages s ! nat (pageIndex s)) (nat (offsetInPage s)) buf],
               offsetInPage := offsetInPage s + int (alignWord (length buf)),
               remainingSpace := int ps - (offsetInPage s + int (alignWord (length buf)))\<rparr>"
  have w: "writeFragment m ps f s = Inr ?s2"
    unfolding writeFragment_Inr [OF Cons.prems(2)] using buf by blast
  show ?case
  proof (cases "int (length (pages s)) \<le> pageIndex s + 1")
    case True
    then have "nextPage ps ?s2 = Inl NotEnoughPages" by (simp add: nextPage_Inl)
    then show ?thesis unfolding writeFragments_several_Cons by (simp add: w)
  next
    case False
    let ?s3 = "?s2\<lparr>pageIndex := pageIndex ?s2 + 1, offsetInPage := 20,
                     remainingSpace := int ps - 20\<rparr>"
    have n: "nextPage ps ?s2 = Inr ?s3"
      unfolding nextPage_Inr using False by simp
    have "writeFragments m ps True rest ?s3 = Inl NotEnoughPages"
      using Cons.prems False by (intro Cons.IH) auto
    then show ?thesis unfolding writeFragments_several_Cons by (simp add: w n)
  qed
qed

lemma placeObjects_append:
  "placeObjects m ps (xs @ ys) s = bindE (placeObjects m ps xs s) (\<lambda>s1. placeObjects m ps ys s1)"
proof (induction xs arbitrary: s)
  case Nil
  show ?case by simp
next
  case (Cons x xs)
  show ?case by (cases "placeObject m ps x s") (simp_all add: Cons.IH)
qed

lemma writeObjects_first_page:
  assumes "pgs \<noteq> []"
  shows "writeObjects m ps pgs objs =
     bindE (placeObjects m ps (mapValues objs)
              \<lparr>pages = pgs, pageIndex = 0, offsetInPage = 20, remainingSpace = int ps - 20\<rparr>)
       (\<lambda>s'. Inr (pages s'))"
proof -
  have "nextPage ps \<lparr>pages = pgs, pageIndex = - 1, offsetInPage = - 1, remainingSpace = - 1\<rparr>
          = Inr \<lparr>pages = pgs, pageIndex = 0, offsetInPage = 20, remainingSpace = int ps - 20\<rparr>"
    using assms by (simp add: nextPage_Inr)
  then show ?thesis by (simp add: writeObjects_def)
qed




text \<open>
  The pages that parseNVM reads from an image made of pages with the default header: the
  page bodies decoded by the object layer, at offsets 2048 apart.
\<close>

fun pagesAt :: "nat \<Rightarrow> NVMObject list list \<Rightarrow> NVMPage list" where
  "pagesAt offs [] = []"
| "pagesAt offs (objs # rest) =
     \<lparr> header = defaultPageHeader offs, objects = objs \<rparr> # pagesAt (offs + 2048) rest"

lemma readPages_rendered:
  assumes "list_all2 (\<lambda>body objs. length body = 2028 \<and> readObjects m body = Inr objs) bodies objss"
  shows "readPages m (pre @ concat (map (\<lambda>b. defaultHeader @ b) bodies)) (length pre)
           = Inr (pagesAt (length pre) objss)"
  using assms
proof (induction bodies objss arbitrary: pre rule: list_all2_induct)
  case Nil
  show ?case by (simp add: readPages_Inr_Nil)
next
  case (Cons b bodies objs objss)
  let ?post = "concat (map (\<lambda>b. defaultHeader @ b) bodies)"
  let ?buf = "pre @ (defaultHeader @ b) @ ?post"
  have hl: "length defaultHeader = 20" by (simp add: defaultHeader_def)
  have lt: "length pre < length ?buf" using hl by simp
  have rp: "readPage m ?buf (length pre)
              = Inr (\<lparr> header = defaultPageHeader (length pre), objects = objs \<rparr>, 2048)"
    using readPage_default_page [of b m pre ?post] Cons.hyps(1) by simp
  have "readPages m ((pre @ defaultHeader @ b) @ ?post) (length (pre @ defaultHeader @ b))
          = Inr (pagesAt (length (pre @ defaultHeader @ b)) objss)"
    by (rule Cons.IH)
  then have rest: "readPages m ?buf (length pre + 2048) = Inr (pagesAt (length pre + 2048) objss)"
    using hl Cons.hyps(1) by simp
  have "readPages m ?buf (length pre)
          = Inr (pagesAt (length pre) (objs # objss))"
    unfolding readPages_step [OF lt] rp bindE_Inr fst_conv snd_conv rest by simp
  then show ?case by simp
qed

lemma pagesAt_append:
  "pagesAt offs (xs @ ys) = pagesAt offs xs @ pagesAt (offs + 2048 * length xs) ys"
  by (induction xs arbitrary: offs) (simp_all add: add.assoc)

lemma pagesAt_offset:
  "p \<in> set (pagesAt offs xs) \<Longrightarrow>
     offs \<le> offset (header p) \<and> offset (header p) < offs + 2048 * length xs
     \<and> eraseCount (header p) = 0"
proof (induction xs arbitrary: offs)
  case Nil
  then show ?case by simp
next
  case (Cons x xs)
  from Cons.prems show ?case
  proof (simp, elim disjE)
    assume "p = \<lparr>header = defaultPageHeader offs, objects = x\<rparr>"
    then show "offs \<le> offset (header p) \<and> offset (header p) < offs + (2048 + 2048 * length xs)
     \<and> eraseCount (header p) = 0"
      by (simp add: defaultPageHeader_def)
  next
    assume "p \<in> set (pagesAt (offs + 2048) xs)"
    from Cons.IH [OF this]
    show "offs \<le> offset (header p) \<and> offset (header p) < offs + (2048 + 2048 * length xs)
     \<and> eraseCount (header p) = 0"
      by simp
  qed
qed

lemma objects_pagesAt: "map objects (pagesAt offs xs) = xs"
  by (induction xs arbitrary: offs) simp_all

lemma insertPage_last:
  "\<forall>q\<in>set qs. \<not> comparePages p q < 0 \<Longrightarrow> insertPage p qs = qs @ [p]"
  by (induction qs) simp_all

lemma sortPages_snoc: "sortPages (ps @ [p]) = insertPage p (sortPages ps)"
  by (simp add: sortPages_def)

lemma sortPages_sorted:
  "sorted_wrt (\<lambda>p q. \<not> comparePages q p < 0) ps \<Longrightarrow> sortPages ps = ps"
proof (induction ps rule: rev_induct)
  case Nil
  show ?case by (simp add: sortPages_simps)
next
  case (snoc p ps)
  from snoc.prems have s: "sorted_wrt (\<lambda>p q. \<not> comparePages q p < 0) ps"
    and l: "\<forall>q\<in>set ps. \<not> comparePages p q < 0"
    by (simp_all add: sorted_wrt_append)
  show ?case
    unfolding sortPages_snoc snoc.IH [OF s] by (rule insertPage_last [OF l])
qed

lemma sorted_pagesAt: "sorted_wrt (\<lambda>p q. \<not> comparePages q p < 0) (pagesAt offs xs)"
proof (induction xs arbitrary: offs)
  case Nil
  show ?case by simp
next
  case (Cons x xs)
  have "\<not> comparePages q \<lparr>header = defaultPageHeader offs, objects = x\<rparr> < 0"
    if "q \<in> set (pagesAt (offs + 2048) xs)" for q
    using pagesAt_offset [OF that] by (simp add: comparePages_def defaultPageHeader_def)
  with Cons.IH show ?case by simp
qed

lemma sortPages_pagesAt: "sortPages (pagesAt offs xs) = pagesAt offs xs"
  by (rule sortPages_sorted [OF sorted_pagesAt])

lemma filter_pagesAt:
  assumes "bound = offs + 2048 * length xs"
  shows "filter (\<lambda>p. offset (header p) < bound) (pagesAt offs (xs @ ys)) = pagesAt offs xs"
    and "filter (\<lambda>p. offset (header p) \<ge> bound) (pagesAt offs (xs @ ys))
           = pagesAt bound ys"
proof -
  have a: "\<forall>p\<in>set (pagesAt offs xs). offset (header p) < bound"
    using pagesAt_offset [of _ offs xs] assms by simp
  have b: "\<forall>p\<in>set (pagesAt bound ys). \<not> offset (header p) < bound"
    using pagesAt_offset [of _ bound ys] by (simp add: not_less)
  show "filter (\<lambda>p. offset (header p) < bound) (pagesAt offs (xs @ ys)) = pagesAt offs xs"
    unfolding pagesAt_append assms [symmetric] using a b by simp
  have a': "\<forall>p\<in>set (pagesAt offs xs). \<not> bound \<le> offset (header p)"
    using a by (simp add: not_le)
  have b': "\<forall>p\<in>set (pagesAt bound ys). bound \<le> offset (header p)"
    using pagesAt_offset [of _ bound ys] by simp
  show "filter (\<lambda>p. offset (header p) \<ge> bound) (pagesAt offs (xs @ ys)) = pagesAt bound ys"
    unfolding pagesAt_append assms [symmetric] using a' b' by simp
qed

lemma parseNVM_rendered:
  assumes app: "list_all2 (\<lambda>body objs. length body = 2028 \<and> readObjects m body = Inr objs)
                  appBodies appObjs"
    and proto: "list_all2 (\<lambda>body objs. length body = 2028 \<and> readObjects m body = Inr objs)
                  protoBodies protoObjs"
    and six: "length appBodies = 6"
  shows "\<exists>r. parseNVM m (concat (map (\<lambda>b. defaultHeader @ b) (appBodies @ protoBodies))) = Inr r
           \<and> applicationObjects r = compressObjects (concat appObjs)
           \<and> protocolObjects r = compressObjects (concat protoObjs)"
proof -
  let ?img = "concat (map (\<lambda>b. defaultHeader @ b) (appBodies @ protoBodies))"
  have "list_all2 (\<lambda>body objs. length body = 2028 \<and> readObjects m body = Inr objs)
          (appBodies @ protoBodies) (appObjs @ protoObjs)"
    using app proto by (rule list_all2_appendI)
  from readPages_rendered [OF this, of "[]"]
  have rp: "readPages m ?img 0 = Inr (pagesAt 0 (appObjs @ protoObjs))" by simp
  have l: "length appObjs = 6" using app six by (simp add: list_all2_lengthD)
  have b: "ZWAVE_APPLICATION_NVM_SIZE = 0 + 2048 * length appObjs"
    by (simp add: l ZWAVE_APPLICATION_NVM_SIZE_def)
  have "parseNVM m ?img = Inr (processPages (pagesAt 0 (appObjs @ protoObjs)))"
    unfolding parseNVM_def rp by simp
  moreover have "applicationObjects (processPages (pagesAt 0 (appObjs @ protoObjs)))
                  = compressObjects (concat appObjs)"
    unfolding processPages_objects filter_pagesAt(1) [OF b] sortPages_pagesAt objects_pagesAt ..
  moreover have "protocolObjects (processPages (pagesAt 0 (appObjs @ protoObjs)))
                  = compressObjects (concat protoObjs)"
    unfolding processPages_objects filter_pagesAt(2) [OF b] sortPages_pagesAt objects_pagesAt ..
  ultimately show ?thesis by blast
qed

definition entry :: "nat \<times> NVMObject \<Rightarrow> nat \<times> ObjectType \<times> byte list" where
  \<comment> \<open>What is compared of an entry of an object map: the key, and the type and the payload of
      the object.\<close>
  "entry kv = (fst kv, type (snd kv), payload (snd kv))"

definition isChain :: "NVMObject \<Rightarrow> NVMObject list \<Rightarrow> bool" where
  \<comment> \<open>Modelled from the spec: what \<^verbatim>\<open>fragmentLargeObject\<close> of object.ts, which is not part
      of the sources, returns when it splits an object (section 4.2): fragments of the
      object's key and type whose statuses run first, next, ..., last and whose payloads are
      the payload in pieces.\<close>
  "isChain obj frs \<longleftrightarrow>
     2 \<le> length frs
     \<and> (\<forall>f\<in>set frs. key f = key obj \<and> type f = type obj)
     \<and> fragmentType (hd frs) = First
     \<and> (\<forall>f\<in>set (butlast (tl frs)). fragmentType f = Next)
     \<and> fragmentType (last frs) = Last
     \<and> concat (map payload frs) = payload obj"

definition fragmentsOf :: "NVMObject \<Rightarrow> NVMObject list \<Rightarrow> bool" where
  \<comment> \<open>The fragment lists of the loop of writeObjects: the object itself, or the pieces of a
      large object.\<close>
  "fragmentsOf obj frs \<longleftrightarrow>
     frs = [obj] \<or> ((type obj = CounterLarge \<or> type obj = DataLarge) \<and> isChain obj frs)"

lemma map_of_mapSet: "map_of (mapSet mp k v) k = Some v"
  by (induction mp) auto

lemma mapSet_fresh: "k \<notin> fst ` set mp \<Longrightarrow> mapSet mp k v = mp @ [(k, v)]"
  by (induction mp) auto

lemma payload_data [simp]: "payload (obj\<lparr>data := Some d\<rparr>) = d"
  by (simp add: payload_def)

lemma payload_fragmentType [simp]: "payload (obj\<lparr>fragmentType := t\<rparr>) = payload obj"
  by (simp add: payload_def)

lemma compressStep_Next:
  assumes "type f = CounterLarge \<or> type f = DataLarge" and "fragmentType f = Next"
    and "map_of pending (key f) = Some part"
  shows "compressStep (live, pending) f
           = (live, mapSet pending (key f) (part\<lparr>data := Some (payload part @ payload f)\<rparr>))"
  using assms by (auto simp: compressStep_def Let_def)

lemma compressStep_Last:
  assumes "type f = CounterLarge \<or> type f = DataLarge" and "fragmentType f = Last"
    and "map_of pending (key f) = Some part"
  shows "compressStep (live, pending) f
           = (mapSet live (key f)
                (part\<lparr>fragmentType := NoFragment, data := Some (payload part @ payload f)\<rparr>),
              mapDelete pending (key f))"
  using assms by (auto simp: compressStep_def Let_def)

lemma compressStep_First:
  assumes "type f = CounterLarge \<or> type f = DataLarge" and "fragmentType f = First"
  shows "compressStep (live, pending) f
           = (live, mapSet pending (key f) (f\<lparr>data := Some (payload f)\<rparr>))"
  using assms by (auto simp: compressStep_def Let_def)

lemma compressStep_whole:
  assumes "type f = CounterLarge \<or> type f = DataLarge \<or> type f = CounterSmall
           \<or> type f = DataSmall"
    and "fragmentType f = NoFragment"
  shows "compressStep (live, pending) f = (mapSet live (key f) f, pending)"
  using assms by (auto simp: compressStep_def Let_def)

lemma compress_Next_fragments:
  assumes "\<forall>f\<in>set mids. key f = k \<and> (type f = CounterLarge \<or> type f = DataLarge)
             \<and> fragmentType f = Next"
    and "map_of pending k = Some part" and "data part = Some (payload part)"
  shows "\<exists>pending'. foldl compressStep (live, pending) mids = (live, pending')
           \<and> map_of pending' k = Some (part\<lparr>data := Some (payload part @ concat (map payload mids))\<rparr>)"
  using assms
proof (induction mids arbitrary: pending part)
  case Nil
  then show ?case by simp
next
  case (Cons f mids)
  have f: "key f = k" "type f = CounterLarge \<or> type f = DataLarge" "fragmentType f = Next"
    using Cons.prems(1) by auto
  let ?part = "part\<lparr>data := Some (payload part @ payload f)\<rparr>"
  have s: "compressStep (live, pending) f = (live, mapSet pending k ?part)"
    using compressStep_Next [OF f(2,3), of pending part live] Cons.prems(2) f(1) by simp
  have "\<forall>f\<in>set mids. key f = k \<and> (type f = CounterLarge \<or> type f = DataLarge)
             \<and> fragmentType f = Next"
    using Cons.prems(1) by simp
  from Cons.IH [OF this map_of_mapSet, of ?part pending]
  show ?case by (simp add: s)
qed


lemma compress_chain:
  assumes large: "type obj = CounterLarge \<or> type obj = DataLarge" and chain: "isChain obj frs"
  shows "\<exists>obj' pending'. foldl compressStep (live, pending) frs
             = (mapSet live (key obj) obj', pending')
           \<and> type obj' = type obj \<and> payload obj' = payload obj"
proof -
  from chain have len: "2 \<le> length frs" by (simp add: isChain_def)
  then obtain f rest where frs: "frs = f # rest" and rest: "rest \<noteq> []"
    by (cases frs) (auto simp: Suc_le_length_iff)
  define mids where "mids = butlast rest"
  define l where "l = last rest"
  have r: "rest = mids @ [l]" using rest by (simp add: mids_def l_def)
  have all: "\<forall>g\<in>set frs. key g = key obj \<and> type g = type obj"
    using chain by (simp add: isChain_def)
  have f: "key f = key obj" "type f = CounterLarge \<or> type f = DataLarge"
    "fragmentType f = First"
    using chain large by (simp_all add: isChain_def frs)
  have m1: "\<forall>g\<in>set mids. fragmentType g = Next"
    using chain by (simp add: isChain_def frs mids_def)
  have m2: "\<forall>g\<in>set mids. g \<in> set frs"
    unfolding frs mids_def by (auto dest: in_set_butlastD)
  have m: "\<forall>g\<in>set mids. key g = key obj \<and> (type g = CounterLarge \<or> type g = DataLarge)
             \<and> fragmentType g = Next"
    using m1 m2 all large by metis
  have l1: "l \<in> set frs" unfolding frs l_def using rest by simp
  have l2: "fragmentType l = Last"
    using chain rest by (simp add: isChain_def frs l_def)
  have l: "key l = key obj" "type l = CounterLarge \<or> type l = DataLarge"
    "fragmentType l = Last"
    using l1 l2 all large by metis+
  have p: "payload f @ concat (map payload mids) @ payload l = payload obj"
    using chain by (simp add: isChain_def frs r)
  let ?part = "f\<lparr>data := Some (payload f)\<rparr>"
  have s1: "compressStep (live, pending) f = (live, mapSet pending (key obj) ?part)"
    using compressStep_First [OF f(2,3), of live pending] f(1) by simp
  from compress_Next_fragments [OF m map_of_mapSet, of ?part live pending]
  obtain pending1 where
    s2: "foldl compressStep (live, mapSet pending (key obj) ?part) mids = (live, pending1)" and
    p1: "map_of pending1 (key obj)
           = Some (?part\<lparr>data := Some (payload ?part @ concat (map payload mids))\<rparr>)"
    by auto
  let ?part1 = "?part\<lparr>data := Some (payload ?part @ concat (map payload mids))\<rparr>"
  let ?obj' = "?part1\<lparr>fragmentType := NoFragment, data := Some (payload ?part1 @ payload l)\<rparr>"
  have s3: "compressStep (live, pending1) l
              = (mapSet live (key obj) ?obj', mapDelete pending1 (key obj))"
    using compressStep_Last [OF l(2,3), of pending1 ?part1 live] p1 l(1) by simp
  have "foldl compressStep (live, pending) frs
          = (mapSet live (key obj) ?obj', mapDelete pending1 (key obj))"
    by (simp add: frs r s1 s2 s3)
  moreover have "type ?obj' = type obj" using all by (simp add: frs)
  moreover have "payload ?obj' = payload obj" using p by simp
  ultimately show ?thesis by blast
qed

lemma compress_fragmentsOf:
  assumes "fragmentsOf obj frs"
    and "type obj = CounterLarge \<or> type obj = DataLarge \<or> type obj = CounterSmall
           \<or> type obj = DataSmall"
    and "fragmentType obj = NoFragment"
  shows "\<exists>obj' pending'. foldl compressStep (live, pending) frs
             = (mapSet live (key obj) obj', pending')
           \<and> type obj' = type obj \<and> payload obj' = payload obj"
proof (cases "frs = [obj]")
  case True
  then show ?thesis
    using compressStep_whole [OF assms(2,3), of live pending]
    by (intro exI [of _ obj] exI [of _ pending]) simp
next
  case False
  with assms(1) have "type obj = CounterLarge \<or> type obj = DataLarge" "isChain obj frs"
    by (simp_all add: fragmentsOf_def)
  then show ?thesis by (rule compress_chain)
qed

lemma compress_fragments:
  assumes "list_all2 fragmentsOf objs frss"
    and "distinct (map key objs)"
    and "\<forall>obj\<in>set objs. key obj \<notin> fst ` set live"
    and "\<forall>obj\<in>set objs. (type obj = CounterLarge \<or> type obj = DataLarge
            \<or> type obj = CounterSmall \<or> type obj = DataSmall)
          \<and> fragmentType obj = NoFragment"
  shows "map entry (fst (foldl compressStep (live, pending) (concat frss)))
           = map entry live @ map (\<lambda>obj. (key obj, type obj, payload obj)) objs"
  using assms
proof (induction objs frss arbitrary: live pending rule: list_all2_induct)
  case Nil
  show ?case by simp
next
  case (Cons obj objs frs frss)
  have t: "type obj = CounterLarge \<or> type obj = DataLarge \<or> type obj = CounterSmall
           \<or> type obj = DataSmall" "fragmentType obj = NoFragment"
    using Cons.prems(3) by simp_all
  from compress_fragmentsOf [OF Cons.hyps(1) t, of live pending] obtain obj' pending' where
    s: "foldl compressStep (live, pending) frs = (mapSet live (key obj) obj', pending')" and
    o: "type obj' = type obj" "payload obj' = payload obj" by blast
  have fresh: "key obj \<notin> fst ` set live" using Cons.prems(2) by simp
  have live': "mapSet live (key obj) obj' = live @ [(key obj, obj')]"
    by (rule mapSet_fresh [OF fresh])
  have d: "distinct (map key objs)" using Cons.prems(1) by simp
  have n: "\<forall>x\<in>set objs. key x \<notin> fst ` set (live @ [(key obj, obj')])"
  proof
    fix x
    assume x: "x \<in> set objs"
    then have "key x \<in> key ` set objs" by (rule imageI)
    moreover have "key obj \<notin> key ` set objs" using Cons.prems(1) by simp
    ultimately have "key x \<noteq> key obj" by metis
    moreover have "key x \<notin> fst ` set live" using Cons.prems(2) x by simp
    ultimately show "key x \<notin> fst ` set (live @ [(key obj, obj')])" by simp
  qed
  have r: "\<forall>obj\<in>set objs. (type obj = CounterLarge \<or> type obj = DataLarge
            \<or> type obj = CounterSmall \<or> type obj = DataSmall)
          \<and> fragmentType obj = NoFragment"
    using Cons.prems(3) by simp
  from Cons.IH [OF d n r, of pending']
  show ?case by (simp add: s live' entry_def o)
qed

lemma compressObjects_fragments:
  assumes "list_all2 fragmentsOf (mapValues A) frss"
    and "distinct (map fst A)"
    and "\<forall>kv\<in>set A. key (snd kv) = fst kv
          \<and> (type (snd kv) = CounterLarge \<or> type (snd kv) = DataLarge
             \<or> type (snd kv) = CounterSmall \<or> type (snd kv) = DataSmall)
          \<and> fragmentType (snd kv) = NoFragment"
  shows "map entry (compressObjects (concat frss)) = map entry A"
proof -
  have k: "map key (mapValues A) = map fst A"
    using assms(3) by (simp add: mapValues_def)
  have e: "map (\<lambda>obj. (key obj, type obj, payload obj)) (mapValues A) = map entry A"
    using assms(3) by (simp add: mapValues_def entry_def)
  have d: "distinct (map key (mapValues A))" using assms(2) k by simp
  have f: "\<forall>obj\<in>set (mapValues A). key obj \<notin> fst ` set ([] :: NVMObject jsmap)" by simp
  have t: "\<forall>obj\<in>set (mapValues A). (type obj = CounterLarge \<or> type obj = DataLarge
            \<or> type obj = CounterSmall \<or> type obj = DataSmall)
          \<and> fragmentType obj = NoFragment"
    using assms(3) by (simp add: mapValues_def)
  have "map entry (fst (foldl compressStep ([], []) (concat frss)))
           = map entry [] @ map (\<lambda>obj. (key obj, type obj, payload obj)) (mapValues A)"
    by (rule compress_fragments [OF assms(1) d f t])
  then show ?thesis by (simp add: compressObjects_def e)
qed

text \<open>
  What writeObjects leaves on a page of 2048 bytes, in terms of the fragments placed on it:
  the page header, the bytes of each fragment as the object layer writes them, each
  followed by the erased bytes up to the next word boundary, and erased space to the end.
\<close>

definition padded :: "byte list \<Rightarrow> byte list" where
  "padded buf = buf @ replicate (alignWord (length buf) - length buf) 0xff"

definition written :: "ObjectLayer \<Rightarrow> NVMObject \<Rightarrow> byte list" where
  "written m f = (case writeObject m f of Inl _ \<Rightarrow> [] | Inr buf \<Rightarrow> buf)"

definition render :: "ObjectLayer \<Rightarrow> NVMObject list \<Rightarrow> byte list" where
  "render m frs = concat (map (\<lambda>f. padded (written m f)) frs)"

definition pageBody :: "ObjectLayer \<Rightarrow> NVMObject list \<Rightarrow> byte list" where
  "pageBody m frs = render m frs @ replicate (2028 - length (render m frs)) 0xff"

definition pageImage :: "ObjectLayer \<Rightarrow> NVMObject list \<Rightarrow> byte list" where
  "pageImage m frs = defaultHeader @ pageBody m frs"

definition placed :: "ObjectLayer \<Rightarrow> WriterState \<Rightarrow> NVMObject list list \<Rightarrow> bool" where
  \<comment> \<open>The state of writeObjects after the fragments of the lists \<^verbatim>\<open>L\<close> were placed, one
      list per page, the last list on the current page.\<close>
  "placed m s L \<longleftrightarrow>
     L \<noteq> [] \<and> pageIndex s = int (length L) - 1
     \<and> (\<exists>k. pages s = map (pageImage m) L @ replicate k erasedPage)
     \<and> offsetInPage s = 20 + int (length (render m (last L)))
     \<and> remainingSpace s = 2048 - offsetInPage s
     \<and> (\<forall>frs\<in>set L. length (render m frs) \<le> 2028
           \<and> (\<forall>f\<in>set frs. \<exists>buf. writeObject m f = Inr buf))"

lemma length_padded: "length (padded buf) = alignWord (length buf)"
  using alignWord_ge [of "length buf"] by (simp add: padded_def)

lemma alignWord_dvd: "4 dvd alignWord n"
  by (simp add: alignWord_def)

lemma render_dvd: "4 dvd length (render m frs)"
  by (induction frs) (simp_all add: render_def length_padded alignWord_dvd)

lemma render_snoc: "render m (frs @ [f]) = render m frs @ padded (written m f)"
  by (simp add: render_def)

lemma render_Nil [simp]: "render m [] = []"
  by (simp add: render_def)

lemma alignWord_le:
  assumes "4 dvd c" and "n \<le> c"
  shows "alignWord n \<le> c"
proof -
  from assms(1) obtain q where c: "c = 4 * q" by (auto simp: dvd_def)
  with assms(2) have "(n + 3) div 4 \<le> q" by simp
  then show ?thesis by (simp add: alignWord_def c)
qed

lemma pageImage_Nil: "pageImage m [] = erasedPage"
  by (simp add: pageImage_def pageBody_def erasedPage_def)

lemma length_pageImage: "length (render m frs) \<le> 2028 \<Longrightarrow> length (pageImage m frs) = 2048"
  by (simp add: pageImage_def pageBody_def defaultHeader_def)

lemma blit_pageImage:
  assumes fit: "length (render m cur) + length buf \<le> 2028" and w: "written m f = buf"
  shows "blit (pageImage m cur) (20 + length (render m cur)) buf = pageImage m (cur @ [f])"
    and "length (render m (cur @ [f])) \<le> 2028"
proof -
  let ?R = "render m cur"
  let ?n = "length ?R"
  let ?b = "length buf"
  let ?a = "alignWord ?b"
  have hl: "length defaultHeader = 20" by (simp add: defaultHeader_def)
  have "4 dvd 2028 - ?n" using render_dvd [of m cur] by (simp add: dvd_diff_nat)
  moreover have "?b \<le> 2028 - ?n" using fit by simp
  ultimately have "?a \<le> 2028 - ?n" by (rule alignWord_le)
  then have a: "?n + ?a \<le> 2028" using fit by simp
  have ba: "?b \<le> ?a" by (rule alignWord_ge)
  show "length (render m (cur @ [f])) \<le> 2028"
    using a by (simp add: render_snoc w length_padded)
  have r: "replicate (2028 - ?n - ?b) (0xff :: byte)
             = replicate (?a - ?b) 0xff @ replicate (2028 - (?n + ?a)) 0xff"
    using a ba by (simp flip: replicate_add)
  have lp: "length (render m (cur @ [f])) = ?n + ?a"
    by (simp add: render_snoc w length_padded)
  have rs: "render m (cur @ [f]) = ?R @ buf @ replicate (?a - ?b) 0xff"
    by (simp add: render_snoc w padded_def)
  have "pageImage m (cur @ [f])
          = defaultHeader @ render m (cur @ [f]) @ replicate (2028 - (?n + ?a)) 0xff"
    unfolding pageImage_def pageBody_def lp ..
  also have "\<dots> = defaultHeader @ ?R @ buf
                @ (replicate (?a - ?b) 0xff @ replicate (2028 - (?n + ?a)) 0xff)"
    unfolding rs by simp
  finally have rhs: "pageImage m (cur @ [f])
               = defaultHeader @ ?R @ buf @ replicate (2028 - ?n - ?b) 0xff"
    unfolding r [symmetric] .
  show "blit (pageImage m cur) (20 + length (render m cur)) buf = pageImage m (cur @ [f])"
  proof (cases "?n = 2028")
    case True
    with fit have b0: "buf = []" by simp
    have "length (pageImage m cur) = 2048" using True by (simp add: length_pageImage)
    then have "blit (pageImage m cur) (20 + ?n) buf = pageImage m cur"
      using True by (simp add: blit_def)
    also have "\<dots> = pageImage m (cur @ [f])"
      unfolding rhs using True b0 by (simp add: pageImage_def pageBody_def)
    finally show ?thesis .
  next
    case False
    with fit have lt: "?n < 2028" by simp
    have len: "length (pageImage m cur) = 2048" using lt by (simp add: length_pageImage)
    have t: "take (20 + ?n) (pageImage m cur) = defaultHeader @ ?R"
      by (simp add: pageImage_def pageBody_def hl)
    have d: "drop (20 + ?n + ?b) (pageImage m cur) = replicate (2028 - ?n - ?b) 0xff"
      using fit by (simp add: pageImage_def pageBody_def hl)
    have k: "take (2048 - (20 + ?n)) buf = buf" using fit by simp
    show ?thesis
      unfolding rhs using lt fit by (simp add: blit_def len t d k)
  qed
qed


lemma placed_offset:
  assumes "placed m s L"
  shows "20 \<le> offsetInPage s" and "0 \<le> remainingSpace s" and "0 \<le> pageIndex s"
    and "nat (pageIndex s) = length (butlast L)"
proof -
  from assms have l: "L \<noteq> []" by (simp add: placed_def)
  then have "last L \<in> set L" by simp
  with assms have "length (render m (last L)) \<le> 2028" by (simp add: placed_def)
  with assms show "20 \<le> offsetInPage s" "0 \<le> remainingSpace s"
    by (simp_all add: placed_def)
  from assms l show "0 \<le> pageIndex s" "nat (pageIndex s) = length (butlast L)"
    by (cases L; simp add: placed_def)+
qed

lemma writeFragment_placed:
  assumes p: "placed m s (Ls @ [cur])" and w: "writeObject m f = Inr buf"
    and fit: "int (length buf) \<le> remainingSpace s"
  shows "\<exists>s'. writeFragment m 2048 f s = Inr s' \<and> placed m s' (Ls @ [cur @ [f]])"
proof -
  from p obtain k where
    pi: "pageIndex s = int (length Ls)" and
    pg: "pages s = map (pageImage m) (Ls @ [cur]) @ replicate k erasedPage" and
    off: "offsetInPage s = 20 + int (length (render m cur))" and
    rem: "remainingSpace s = 2048 - offsetInPage s" and
    ok: "\<forall>frs\<in>set (Ls @ [cur]). length (render m frs) \<le> 2028
           \<and> (\<forall>f\<in>set frs. \<exists>buf. writeObject m f = Inr buf)"
    by (auto simp: placed_def)
  have wr: "written m f = buf" using w by (simp add: written_def)
  have fit': "length (render m cur) + length buf \<le> 2028" using fit rem off by simp
  note b = blit_pageImage [OF fit' wr]
  have o: "0 \<le> offsetInPage s" using off by simp
  let ?s' = "s\<lparr>pages := (pages s)[nat (pageIndex s)
                    := blit (pages s ! nat (pageIndex s)) (nat (offsetInPage s)) buf],
               offsetInPage := offsetInPage s + int (alignWord (length buf)),
               remainingSpace := 2048 - (offsetInPage s + int (alignWord (length buf)))\<rparr>"
  have wf: "writeFragment m 2048 f s = Inr ?s'"
    unfolding writeFragment_Inr [OF o] using w by simp
  have cur: "pages s ! nat (pageIndex s) = pageImage m cur"
    by (simp add: pi pg nth_append)
  have no: "nat (offsetInPage s) = 20 + length (render m cur)" using off by simp
  have upd: "(pages s)[nat (pageIndex s) := pageImage m (cur @ [f])]
               = map (pageImage m) (Ls @ [cur @ [f]]) @ replicate k erasedPage"
    by (simp add: pi pg list_update_append)
  have pages': "pages ?s' = map (pageImage m) (Ls @ [cur @ [f]]) @ replicate k erasedPage"
    by (simp add: cur no b(1) upd)
  have off': "offsetInPage ?s' = 20 + int (length (render m (cur @ [f])))"
    by (simp add: off render_snoc wr length_padded)
  have ok': "\<forall>frs\<in>set (Ls @ [cur @ [f]]). length (render m frs) \<le> 2028
           \<and> (\<forall>f\<in>set frs. \<exists>buf. writeObject m f = Inr buf)"
    using ok b(2) w by auto
  have "placed m ?s' (Ls @ [cur @ [f]])"
    unfolding placed_def using pages' off' ok' pi by simp
  with wf show ?thesis by blast
qed

lemma nextPage_placed:
  assumes p: "placed m s L" and n: "nextPage 2048 s = Inr s'"
  shows "placed m s' (L @ [[]])"
proof -
  from p obtain k where
    l: "L \<noteq> []" and
    pi: "pageIndex s = int (length L) - 1" and
    pg: "pages s = map (pageImage m) L @ replicate k erasedPage" and
    ok: "\<forall>frs\<in>set L. length (render m frs) \<le> 2028
           \<and> (\<forall>f\<in>set frs. \<exists>buf. writeObject m f = Inr buf)"
    by (auto simp: placed_def)
  from n have lt: "pageIndex s + 1 < int (length (pages s))" and
    s': "s' = s\<lparr>pageIndex := pageIndex s + 1, offsetInPage := 20, remainingSpace := 2048 - 20\<rparr>"
    by (simp_all add: nextPage_Inr)
  from lt pi pg have "0 < k" by simp
  then obtain k' where k: "k = Suc k'" by (cases k) auto
  have "pages s' = map (pageImage m) (L @ [[]]) @ replicate k' erasedPage"
    by (simp add: s' pg k pageImage_Nil)
  then show ?thesis
    unfolding placed_def using ok pi by (auto simp: s')
qed


definition placedAs :: "ObjectLayer \<Rightarrow> NVMObject \<Rightarrow> NVMObject list \<Rightarrow> bool" where
  \<comment> \<open>The fragment lists that a round of the loop of writeObjects may write for an object,
      with pages of 2048 bytes.\<close>
  "placedAs m obj frs \<longleftrightarrow>
     frs = [obj]
     \<or> ((type obj = CounterLarge \<or> type obj = DataLarge)
        \<and> (\<exists>r. 0 \<le> r \<and> r \<le> 2028 \<and> fragmentLargeObject m obj r 2028 = Inr frs))"

definition objectOK :: "ObjectLayer \<Rightarrow> NVMObject \<Rightarrow> bool" where
  \<comment> \<open>Modelled from the spec: what the encoder relies on of \<^verbatim>\<open>writeObject\<close> and
      \<^verbatim>\<open>fragmentLargeObject\<close> of object.ts, which are not part of the sources
      (section 4.2). A small object is written in no more bytes than writeObjects reserves for
      it, and in no more than a page body; the fragments of a large object are the object
      itself or its pieces, the first written in no more bytes than the space left on the
      page, each other one in no more than a page body.\<close>
  "objectOK m obj \<longleftrightarrow>
     (type obj = CounterSmall \<or> type obj = DataSmall
        \<or> type obj = CounterLarge \<or> type obj = DataLarge)
     \<and> (type obj = CounterSmall \<or> type obj = DataSmall \<longrightarrow>
          (\<forall>buf. writeObject m obj = Inr buf \<longrightarrow>
             length buf \<le> neededSpace m obj \<and> length buf \<le> 2028))
     \<and> (type obj = CounterLarge \<or> type obj = DataLarge \<longrightarrow>
          (\<forall>r frs. 0 \<le> r \<and> r \<le> 2028 \<and> fragmentLargeObject m obj r 2028 = Inr frs \<longrightarrow>
             fragmentsOf obj frs
             \<and> (\<forall>k<length frs. \<forall>buf. writeObject m (frs ! k) = Inr buf \<longrightarrow>
                   int (length buf) \<le> (if k = 0 then r else 2028))))"

lemma writeFragment_placed_Inr:
  assumes p: "placed m s L" and w: "writeFragment m 2048 f s = Inr s'"
    and fit: "\<forall>buf. writeObject m f = Inr buf \<longrightarrow> int (length buf) \<le> remainingSpace s"
  shows "placed m s' (butlast L @ [last L @ [f]])"
proof -
  from p have l: "L = butlast L @ [last L]" by (simp add: placed_def)
  have o: "0 \<le> offsetInPage s" using placed_offset(1) [OF p] by simp
  from w obtain buf where buf: "writeObject m f = Inr buf"
    unfolding writeFragment_Inr [OF o] by blast
  with fit have "int (length buf) \<le> remainingSpace s" by blast
  from writeFragment_placed [of m s "butlast L" "last L", OF _ buf this] p l w
  show ?thesis by auto
qed

lemma writeFragments_several_placed:
  assumes "placed m s L" and "writeFragments m 2048 True frs s = Inr s'"
    and "\<forall>k<length frs. \<forall>buf. writeObject m (frs ! k) = Inr buf \<longrightarrow>
           int (length buf) \<le> (if k = 0 then remainingSpace s else 2028)"
  shows "\<exists>L'. placed m s' L' \<and> concat L' = concat L @ frs"
  using assms
proof (induction frs arbitrary: s L)
  case Nil
  then show ?case by auto
next
  case (Cons f rest)
  from Cons.prems(2) obtain s2 s3 where
    w: "writeFragment m 2048 f s = Inr s2" and n: "nextPage 2048 s2 = Inr s3" and
    r: "writeFragments m 2048 True rest s3 = Inr s'"
    unfolding writeFragments_several_Cons by (auto simp: bindE_eq_Inr)
  have fit: "\<forall>buf. writeObject m f = Inr buf \<longrightarrow> int (length buf) \<le> remainingSpace s"
    using Cons.prems(3) by auto
  have p2: "placed m s2 (butlast L @ [last L @ [f]])"
    by (rule writeFragment_placed_Inr [OF Cons.prems(1) w fit])
  have p3: "placed m s3 ((butlast L @ [last L @ [f]]) @ [[]])"
    by (rule nextPage_placed [OF p2 n])
  have rem: "remainingSpace s3 = 2028" using n by (simp add: nextPage_Inr)
  have fits: "\<forall>k<length rest. \<forall>buf. writeObject m (rest ! k) = Inr buf \<longrightarrow>
           int (length buf) \<le> (if k = 0 then remainingSpace s3 else 2028)"
  proof (intro allI impI)
    fix k buf
    assume k: "k < length rest" and b: "writeObject m (rest ! k) = Inr buf"
    from Cons.prems(3) [rule_format, of "Suc k" buf] k b
    show "int (length buf) \<le> (if k = 0 then remainingSpace s3 else 2028)"
      by (simp add: rem)
  qed
  from Cons.IH [OF p3 r fits] obtain L' where
    L': "placed m s' L'" "concat L' = concat ((butlast L @ [last L @ [f]]) @ [[]]) @ rest"
    by blast
  from Cons.prems(1) have l: "L = butlast L @ [last L]" by (simp add: placed_def)
  have "concat L = concat (butlast L) @ last L" by (subst l) simp
  with L'(2) have "concat L' = concat L @ f # rest" by simp
  with L'(1) show ?case by blast
qed

lemma concat_snoc_last:
  assumes "L \<noteq> []"
  shows "concat (butlast L @ [last L @ [f]]) = concat L @ [f]"
proof -
  from assms have l: "L = butlast L @ [last L]" by simp
  have "concat L = concat (butlast L) @ last L" by (subst l) simp
  then show ?thesis by simp
qed

lemma placeObject_placed:
  assumes p: "placed m s L" and ok: "objectOK m obj"
    and po: "placeObject m 2048 obj s = Inr s'"
  shows "\<exists>L' frs. placed m s' L' \<and> concat L' = concat L @ frs \<and> placedAs m obj frs"
proof -
  from p have ne: "L \<noteq> []" by (simp add: placed_def)
  have rem: "0 \<le> remainingSpace s" "remainingSpace s \<le> 2028"
    using placed_offset [OF p] p by (simp_all add: placed_def)
  show ?thesis
  proof (cases "type obj = CounterLarge \<or> type obj = DataLarge")
    case True
    from po obtain frs where
      f: "fragmentLargeObject m obj (remainingSpace s) 2028 = Inr frs" and
      w: "writeFragments m 2048 (length frs > 1) frs s = Inr s'"
      unfolding placeObject_large_unfold [OF True]
      by (auto simp: bindE_eq_Inr NVM3_PAGE_HEADER_SIZE_def)
    from ok True f rem have
      fo: "fragmentsOf obj frs" and
      fit: "\<forall>k<length frs. \<forall>buf. writeObject m (frs ! k) = Inr buf \<longrightarrow>
                   int (length buf) \<le> (if k = 0 then remainingSpace s else 2028)"
      unfolding objectOK_def by blast+
    have pa: "placedAs m obj frs"
      unfolding placedAs_def using True f rem by blast
    show ?thesis
    proof (cases "frs = [obj]")
      case single: True
      from w have w1: "writeFragment m 2048 obj s = Inr s'"
        by (simp add: single writeFragments_single)
      have "\<forall>buf. writeObject m obj = Inr buf \<longrightarrow> int (length buf) \<le> remainingSpace s"
        using fit by (simp add: single)
      from writeFragment_placed_Inr [OF p w1 this] concat_snoc_last [OF ne, of obj] pa single
      show ?thesis by blast
    next
      case False
      with fo have "isChain obj frs" by (simp add: fragmentsOf_def)
      then have "1 < length frs" by (simp add: isChain_def)
      with w have "writeFragments m 2048 True frs s = Inr s'" by simp
      from writeFragments_several_placed [OF p this fit] pa show ?thesis by blast
    qed
  next
    case False
    with ok have small: "type obj = CounterSmall \<or> type obj = DataSmall"
      and size: "\<forall>buf. writeObject m obj = Inr buf \<longrightarrow>
             length buf \<le> neededSpace m obj \<and> length buf \<le> 2028"
      unfolding objectOK_def by blast+
    have pa: "placedAs m obj [obj]" by (simp add: placedAs_def)
    show ?thesis
    proof (cases "(type obj = CounterSmall
               \<and> remainingSpace s < int (NVM3_OBJ_HEADER_SIZE_SMALL + NVM_COUNTER_SIZE))
            \<or> (type obj = DataSmall
               \<and> remainingSpace s < int (NVM3_OBJ_HEADER_SIZE_SMALL + length (payload obj)))")
      case True
      from po obtain s1 where n: "nextPage 2048 s = Inr s1"
        and w: "writeFragment m 2048 obj s1 = Inr s'"
        unfolding placeObject_small_unfold [OF True] by (auto simp: bindE_eq_Inr)
      have p1: "placed m s1 (L @ [[]])" by (rule nextPage_placed [OF p n])
      have "remainingSpace s1 = 2028" using n by (simp add: nextPage_Inr)
      with size have "\<forall>buf. writeObject m obj = Inr buf \<longrightarrow> int (length buf) \<le> remainingSpace s1"
        by auto
      from writeFragment_placed_Inr [OF p1 w this]
      have "placed m s' (L @ [[obj]])" by simp
      moreover have "concat (L @ [[obj]]) = concat L @ [obj]" by simp
      ultimately show ?thesis using pa by blast
    next
      case fitc: False
      from po have w: "writeFragment m 2048 obj s = Inr s'"
        unfolding placeObject_small_fit_unfold [OF small fitc] .
      have "int (neededSpace m obj) \<le> remainingSpace s"
        using fitc small by (auto simp: neededSpace_def)
      with size have "\<forall>buf. writeObject m obj = Inr buf \<longrightarrow> int (length buf) \<le> remainingSpace s"
        by fastforce
      from writeFragment_placed_Inr [OF p w this] concat_snoc_last [OF ne, of obj] pa
      show ?thesis by blast
    qed
  qed
qed

lemma placeObjects_placed:
  assumes "placed m s L" and "\<forall>obj\<in>set objs. objectOK m obj"
    and "placeObjects m 2048 objs s = Inr s'"
  shows "\<exists>L' frss. placed m s' L' \<and> concat L' = concat L @ concat frss
           \<and> list_all2 (placedAs m) objs frss"
  using assms
proof (induction objs arbitrary: s L)
  case Nil
  then have "placed m s' L \<and> concat L = concat L @ concat [] \<and> list_all2 (placedAs m) [] []"
    by simp
  then show ?case by blast
next
  case (Cons obj objs)
  from Cons.prems(3) obtain s1 where
    po: "placeObject m 2048 obj s = Inr s1" and r: "placeObjects m 2048 objs s1 = Inr s'"
    by (auto simp: bindE_eq_Inr)
  have ok: "objectOK m obj" "\<forall>obj\<in>set objs. objectOK m obj" using Cons.prems(2) by simp_all
  from placeObject_placed [OF Cons.prems(1) ok(1) po] obtain L1 frs where
    L1: "placed m s1 L1" "concat L1 = concat L @ frs" "placedAs m obj frs" by blast
  from Cons.IH [OF L1(1) ok(2) r] obtain L' frss where
    L': "placed m s' L'" "concat L' = concat L1 @ concat frss"
      "list_all2 (placedAs m) objs frss" by blast
  have "concat L' = concat L @ concat (frs # frss)" using L'(2) L1(2) by simp
  moreover have "list_all2 (placedAs m) (obj # objs) (frs # frss)" using L1(3) L'(3) by simp
  ultimately show ?case using L'(1) by blast
qed

lemma writeObjects_rendered:
  assumes w: "writeObjects m 2048 (replicate N erasedPage) A = Inr pgs'"
    and ok: "\<forall>obj\<in>set (mapValues A). objectOK m obj"
  shows "\<exists>L frss. pgs' = map (pageImage m) L \<and> length L = N \<and> concat L = concat frss
           \<and> list_all2 (placedAs m) (mapValues A) frss
           \<and> (\<forall>frs\<in>set L. length (render m frs) \<le> 2028
                 \<and> (\<forall>f\<in>set frs. \<exists>buf. writeObject m f = Inr buf))"
proof -
  have ne: "replicate N erasedPage \<noteq> []"
  proof
    assume "replicate N erasedPage = []"
    then have "writeObjects m 2048 (replicate N erasedPage) A = Inl NotEnoughPages"
      by (simp add: writeObjects_def nextPage_def)
    with w show False by simp
  qed
  then obtain N' where N: "N = Suc N'" by (cases N) auto
  let ?s0 = "\<lparr>pages = replicate N erasedPage, pageIndex = 0, offsetInPage = 20,
               remainingSpace = int 2048 - 20\<rparr>"
  from w obtain s' where
    r: "placeObjects m 2048 (mapValues A) ?s0 = Inr s'" and pg: "pgs' = pages s'"
    unfolding writeObjects_first_page [OF ne] by (auto simp: bindE_eq_Inr)
  have "pages ?s0 = map (pageImage m) [[]] @ replicate N' erasedPage"
    by (simp add: N pageImage_Nil)
  then have p0: "placed m ?s0 [[]]"
    unfolding placed_def by simp
  from placeObjects_placed [OF p0 ok r] obtain L' frss where
    L': "placed m s' L'" "concat L' = concat frss"
      "list_all2 (placedAs m) (mapValues A) frss" by auto
  from L'(1) obtain k where
    pages': "pages s' = map (pageImage m) L' @ replicate k erasedPage" and
    ok': "\<forall>frs\<in>set L'. length (render m frs) \<le> 2028
           \<and> (\<forall>f\<in>set frs. \<exists>buf. writeObject m f = Inr buf)"
    by (auto simp: placed_def)
  let ?L = "L' @ replicate k []"
  have a: "pgs' = map (pageImage m) ?L" by (simp add: pg pages' pageImage_Nil)
  have "map length (pages s') = map length (pages ?s0)" by (rule placeObjects_lengths [OF r])
  then have "length (pages s') = N" using length_map [of length "pages s'"] by simp
  then have b: "length ?L = N" using pages' by simp
  have c: "concat ?L = concat frss" using L'(2) by simp
  have d: "\<forall>frs\<in>set ?L. length (render m frs) \<le> 2028
           \<and> (\<forall>f\<in>set frs. \<exists>buf. writeObject m f = Inr buf)"
    using ok' by auto
  from a b c d L'(3) show ?thesis by blast
qed

definition codecOK :: "ObjectLayer \<Rightarrow> NVMObject jsmap \<Rightarrow> bool" where
  \<comment> \<open>Modelled from the spec: what the decoder relies on of \<^verbatim>\<open>readObjects\<close> of object.ts,
      which is not part of the sources (section 4.2): from a page body that holds fragments
      of the objects of the map, as writeObject writes them, word-aligned and followed by
      erased space, readObjects returns these fragments.\<close>
  "codecOK m A \<longleftrightarrow>
     (\<forall>frs. (\<forall>f\<in>set frs. (\<exists>buf. writeObject m f = Inr buf)
                \<and> (\<exists>obj\<in>set (mapValues A). \<exists>frs'. placedAs m obj frs' \<and> f \<in> set frs'))
            \<and> length (render m frs) \<le> 2028
          \<longrightarrow> readObjects m (pageBody m frs) = Inr frs)"

definition regionOK :: "ObjectLayer \<Rightarrow> NVMObject jsmap \<Rightarrow> bool" where
  \<comment> \<open>An object map that encodeNVM and parseNVM take back and forth: each object is filed
      under its own key, is a whole data or counter object, and the object layer writes,
      splits and reads its objects as section 4.2 says.\<close>
  "regionOK m A \<longleftrightarrow>
     distinct (map fst A)
     \<and> (\<forall>kv\<in>set A. key (snd kv) = fst kv \<and> fragmentType (snd kv) = NoFragment
           \<and> objectOK m (snd kv))
     \<and> codecOK m A"

lemma placedAs_fragmentsOf:
  assumes "placedAs m obj frs" and "objectOK m obj"
  shows "fragmentsOf obj frs"
proof (cases "frs = [obj]")
  case True
  then show ?thesis by (simp add: fragmentsOf_def)
next
  case False
  with assms(1) obtain r where "type obj = CounterLarge \<or> type obj = DataLarge"
    "0 \<le> r" "r \<le> 2028" "fragmentLargeObject m obj r 2028 = Inr frs"
    by (auto simp: placedAs_def)
  with assms(2) show ?thesis unfolding objectOK_def by blast
qed

lemma region_roundtrip:
  assumes w: "writeObjects m 2048 (replicate N erasedPage) A = Inr pgs'"
    and ok: "regionOK m A"
  shows "\<exists>L. pgs' = map (\<lambda>b. defaultHeader @ b) (map (pageBody m) L) \<and> length L = N
           \<and> list_all2 (\<lambda>body objs. length body = 2028 \<and> readObjects m body = Inr objs)
               (map (pageBody m) L) L
           \<and> map entry (compressObjects (concat L)) = map entry A"
proof -
  have oks: "\<forall>obj\<in>set (mapValues A). objectOK m obj"
    using ok by (auto simp: regionOK_def mapValues_def)
  from writeObjects_rendered [OF w oks] obtain L frss where
    a: "pgs' = map (pageImage m) L" and b: "length L = N" and c: "concat L = concat frss" and
    d: "list_all2 (placedAs m) (mapValues A) frss" and
    e: "\<forall>frs\<in>set L. length (render m frs) \<le> 2028
                 \<and> (\<forall>f\<in>set frs. \<exists>buf. writeObject m f = Inr buf)"
    by blast
  have a': "pgs' = map (\<lambda>b. defaultHeader @ b) (map (pageBody m) L)"
    by (simp add: a pageImage_def comp_def)
  have src: "\<exists>obj\<in>set (mapValues A). \<exists>frs'. placedAs m obj frs' \<and> f \<in> set frs'"
    if "f \<in> set (concat frss)" for f
  proof -
    from that obtain frs' where f: "frs' \<in> set frss" "f \<in> set frs'" by auto
    then obtain i where i: "i < length frss" "frss ! i = frs'" by (auto simp: in_set_conv_nth)
    from d i have "placedAs m (mapValues A ! i) frs'" "i < length (mapValues A)"
      by (auto simp: list_all2_conv_all_nth)
    with f(2) show ?thesis by (metis nth_mem)
  qed
  have rd: "length (pageBody m frs) = 2028 \<and> readObjects m (pageBody m frs) = Inr frs"
    if frs: "frs \<in> set L" for frs
  proof -
    from e frs have l: "length (render m frs) \<le> 2028"
      and wr: "\<forall>f\<in>set frs. \<exists>buf. writeObject m f = Inr buf" by blast+
    have "\<forall>f\<in>set frs. f \<in> set (concat frss)" using frs c [symmetric] by auto
    with src have "\<forall>f\<in>set frs. \<exists>obj\<in>set (mapValues A). \<exists>frs'. placedAs m obj frs' \<and> f \<in> set frs'"
      by blast
    with ok wr l have "readObjects m (pageBody m frs) = Inr frs"
      unfolding regionOK_def codecOK_def by blast
    moreover have "length (pageBody m frs) = 2028" using l by (simp add: pageBody_def)
    ultimately show ?thesis by simp
  qed
  have la: "list_all2 (\<lambda>body objs. length body = 2028 \<and> readObjects m body = Inr objs)
               (map (pageBody m) L) L"
    using rd by (simp add: list_all2_conv_all_nth)
  have "list_all2 fragmentsOf (mapValues A) frss"
    unfolding list_all2_conv_all_nth
  proof (intro conjI allI impI)
    show "length (mapValues A) = length frss" using d by (rule list_all2_lengthD)
  next
    fix i
    assume i: "i < length (mapValues A)"
    with d have "placedAs m (mapValues A ! i) (frss ! i)" by (simp add: list_all2_conv_all_nth)
    moreover have "objectOK m (mapValues A ! i)" using oks i by simp
    ultimately show "fragmentsOf (mapValues A ! i) (frss ! i)" by (rule placedAs_fragmentsOf)
  qed
  moreover have "distinct (map fst A)" using ok by (simp add: regionOK_def)
  moreover have "\<forall>kv\<in>set A. key (snd kv) = fst kv
          \<and> (type (snd kv) = CounterLarge \<or> type (snd kv) = DataLarge
             \<or> type (snd kv) = CounterSmall \<or> type (snd kv) = DataSmall)
          \<and> fragmentType (snd kv) = NoFragment"
    using ok unfolding regionOK_def objectOK_def by blast
  ultimately have "map entry (compressObjects (concat frss)) = map entry A"
    by (rule compressObjects_fragments)
  with a' b la c show ?thesis by auto
qed

text \<open>The reference object layer reads back what it writes.\<close>

definition refWellFormed :: "NVMObject \<Rightarrow> bool" where
  "refWellFormed f \<longleftrightarrow>
     key f < 65536 \<and> type f \<noteq> Deleted \<and> data f \<noteq> None
     \<and> length (payload f) < (if isLarge f then 65536 else 256)"

lemma unat_byte: "n < 256 \<Longrightarrow> unat (of_nat n :: byte) = n"
  by (simp add: unat_of_nat)

lemma typeOfCode_typeCode: "typeOfCode (typeCode t) = Some t"
  by (cases t) (simp_all add: typeOfCode_def typeCode_def)

lemma fragOfCode_fragCode: "fragOfCode (fragCode t) = t"
  by (cases t) (simp_all add: fragOfCode_def fragCode_def)

lemma typeCode_less: "typeCode t < 8"
  by (cases t) (simp_all add: typeCode_def)

lemma fragCode_less: "fragCode t < 4"
  by (cases t) (simp_all add: fragCode_def)

lemma tag_value:
  "unat (of_nat (typeCode t + 8 * fragCode ft) :: byte) = typeCode t + 8 * fragCode ft"
  using typeCode_less [of t] fragCode_less [of ft] by (intro unat_byte) simp

lemma tag_not_erased: "(of_nat (typeCode t + 8 * fragCode ft) :: byte) \<noteq> 0xff"
proof
  assume eq: "(of_nat (typeCode t + 8 * fragCode ft) :: byte) = 0xff"
  from arg_cong [OF eq, of unat]
  have "typeCode t + 8 * fragCode ft = unat (0xff :: byte)" unfolding tag_value .
  then show False
    using typeCode_less [of t] fragCode_less [of ft] by simp
qed

lemma key_bytes:
  assumes "k < 65536"
  shows "unat (of_nat k :: byte) + 256 * unat (of_nat (k div 256) :: byte) = k"
proof -
  have "unat (of_nat k :: byte) = k mod 256" by (simp add: unat_of_nat)
  moreover have "unat (of_nat (k div 256) :: byte) = k div 256"
    using assms by (intro unat_byte) simp
  ultimately show ?thesis by simp
qed

lemma drop_padded: "length buf = n \<Longrightarrow> drop (alignWord n) (padded buf @ rest) = rest"
  by (simp add: length_padded)

lemma refReadObjects_written:
  assumes wf: "refWellFormed f"
  shows "\<exists>buf. writeObject refLayer f = Inr buf
           \<and> refReadObjects (padded buf @ rest)
               = bindE (refReadObjects rest) (\<lambda>r. Inr (f # r))"
proof -
  from wf obtain d where d: "data f = Some d" by (auto simp: refWellFormed_def)
  then have pl: "payload f = d" by (simp add: payload_def)
  have k: "key f < 65536" and t: "type f \<noteq> Deleted" using wf by (simp_all add: refWellFormed_def)
  let ?tag = "of_nat (typeCode (type f) + 8 * fragCode (fragmentType f)) :: byte"
  let ?k0 = "of_nat (key f) :: byte"
  let ?k1 = "of_nat (key f div 256) :: byte"
  let ?n = "length d"
  have tagm: "unat ?tag mod 8 = typeCode (type f)" "unat ?tag div 8 = fragCode (fragmentType f)"
    unfolding tag_value using typeCode_less [of "type f"] by simp_all
  have f: "f = \<lparr> key = key f, type = type f, fragmentType = fragmentType f, data = Some d \<rparr>"
    using d by (cases f) simp
  show ?thesis
  proof (cases "isLarge f")
    case True
    then have lt: "type f = DataLarge \<or> type f = CounterLarge" by (simp add: isLarge_def)
    have n: "?n < 65536" using wf True pl by (simp add: refWellFormed_def)
    let ?hdr = "[?tag, ?k0, ?k1, 0, of_nat ?n, of_nat (?n div 256), 0, 0] :: byte list"
    let ?buf = "?hdr @ d"
    have w: "writeObject refLayer f = Inr ?buf"
      using k True n by (simp add: refLayer_def refWriteObject_def Let_def pl)
    let ?body = "padded ?buf @ rest"
    have nb: "unat (of_nat ?n :: byte) + 256 * unat (of_nat (?n div 256) :: byte) = ?n"
      by (rule key_bytes [OF n])
    have b: "length ?body \<ge> 8 + ?n" "hd ?body = ?tag" "?body ! 1 = ?k0" "?body ! 2 = ?k1"
      "?body ! 4 = of_nat ?n" "?body ! 5 = of_nat (?n div 256)"
      by (simp_all add: padded_def)
    have tk: "take ?n (drop 8 ?body) = d" by (simp add: padded_def)
    have dr: "drop (alignWord (8 + ?n)) ?body = rest"
      by (rule drop_padded) simp
    have "refReadObjects ?body = bindE (refReadObjects rest) (\<lambda>r. Inr (\<lparr> key = key f,
              type = type f, fragmentType = fragmentType f, data = Some d \<rparr> # r))"
      apply (subst refReadObjects.simps)
      using b lt t
      apply (simp only: Let_def tagm typeOfCode_typeCode fragOfCode_fragCode key_bytes [OF k]
          nb tk dr option.case if_True if_False tag_not_erased)
      apply (auto simp: not_less)
      done
    then have "refReadObjects ?body = bindE (refReadObjects rest) (\<lambda>r. Inr (f # r))"
      by (simp only: f [symmetric])
    with w show ?thesis by blast
  next
    case False
    then have st: "\<not> (type f = DataLarge \<or> type f = CounterLarge)" by (simp add: isLarge_def)
    have n: "?n < 256" using wf False pl by (simp add: refWellFormed_def)
    let ?hdr = "[?tag, ?k0, ?k1, of_nat ?n] :: byte list"
    let ?buf = "?hdr @ d"
    have w: "writeObject refLayer f = Inr ?buf"
      using k False n by (simp add: refLayer_def refWriteObject_def Let_def pl)
    let ?body = "padded ?buf @ rest"
    have nb: "unat (of_nat ?n :: byte) = ?n" by (rule unat_byte [OF n])
    have b: "length ?body \<ge> 4 + ?n" "hd ?body = ?tag" "?body ! 1 = ?k0" "?body ! 2 = ?k1"
      "?body ! 3 = of_nat ?n"
      by (simp_all add: padded_def)
    have tk: "take ?n (drop 4 ?body) = d" by (simp add: padded_def)
    have dr: "drop (alignWord (4 + ?n)) ?body = rest"
      by (rule drop_padded) simp
    have "refReadObjects ?body = bindE (refReadObjects rest) (\<lambda>r. Inr (\<lparr> key = key f,
              type = type f, fragmentType = fragmentType f, data = Some d \<rparr> # r))"
      apply (subst refReadObjects.simps)
      using b st t
      apply (simp only: Let_def tagm typeOfCode_typeCode fragOfCode_fragCode key_bytes [OF k]
          nb tk dr option.case if_True if_False tag_not_erased)
      apply (auto simp: not_less)
      done
    then have "refReadObjects ?body = bindE (refReadObjects rest) (\<lambda>r. Inr (f # r))"
      by (simp only: f [symmetric])
    with w show ?thesis by blast
  qed
qed


lemma written_refLayer:
  "writeObject refLayer f = Inr buf \<Longrightarrow> written refLayer f = buf"
  by (simp add: written_def)

lemma refReadObjects_render:
  assumes "\<forall>f\<in>set frs. refWellFormed f"
  shows "refReadObjects (render refLayer frs @ replicate n 0xff) = Inr frs"
  using assms
proof (induction frs)
  case Nil
  show ?case by (simp add: refReadObjects_erased)
next
  case (Cons f frs)
  from Cons.prems have wf: "refWellFormed f" and rest: "\<forall>f\<in>set frs. refWellFormed f" by simp_all
  from refReadObjects_written [OF wf, of "render refLayer frs @ replicate n 0xff"]
  obtain buf where
    w: "writeObject refLayer f = Inr buf" and
    r: "refReadObjects (padded buf @ render refLayer frs @ replicate n 0xff)
          = bindE (refReadObjects (render refLayer frs @ replicate n 0xff)) (\<lambda>r. Inr (f # r))"
    by blast
  have "render refLayer (f # frs) @ replicate n 0xff
          = padded buf @ render refLayer frs @ replicate n 0xff"
    by (simp add: render_def written_refLayer [OF w])
  then show ?case by (simp only: r Cons.IH [OF rest] bindE_Inr)
qed

lemma codecOK_refLayer:
  assumes "\<And>obj frs f. obj \<in> set (mapValues A) \<Longrightarrow> placedAs refLayer obj frs \<Longrightarrow> f \<in> set frs
             \<Longrightarrow> refWellFormed f"
  shows "codecOK refLayer A"
  unfolding codecOK_def
proof (intro allI impI, elim conjE)
  fix frs
  assume a: "\<forall>f\<in>set frs. (\<exists>buf. writeObject refLayer f = Inr buf)
                \<and> (\<exists>obj\<in>set (mapValues A). \<exists>frs'. placedAs refLayer obj frs' \<and> f \<in> set frs')"
  have "\<forall>f\<in>set frs. refWellFormed f" using a assms by blast
  then have "refReadObjects (pageBody refLayer frs) = Inr frs"
    unfolding pageBody_def by (rule refReadObjects_render)
  then show "readObjects refLayer (pageBody refLayer frs) = Inr frs"
    by (simp add: refLayer_def)
qed

lemma placeObject_small_ok:
  assumes ok: "writerOK ps s" and small: "type obj = CounterSmall \<or> type obj = DataSmall"
    and buf: "writeObject m obj = Inr buf"
    and more: "pageIndex s + 1 < int (length (pages s))"
  shows "\<exists>s'. placeObject m ps obj s = Inr s' \<and> pageIndex s' \<le> pageIndex s + 1"
proof (cases "(type obj = CounterSmall
               \<and> remainingSpace s < int (NVM3_OBJ_HEADER_SIZE_SMALL + NVM_COUNTER_SIZE))
            \<or> (type obj = DataSmall
               \<and> remainingSpace s < int (NVM3_OBJ_HEADER_SIZE_SMALL + length (payload obj)))")
  case True
  let ?s1 = "s\<lparr>pageIndex := pageIndex s + 1, offsetInPage := 20, remainingSpace := int ps - 20\<rparr>"
  have n: "nextPage ps s = Inr ?s1" using more by (simp add: nextPage_Inr)
  have o: "0 \<le> offsetInPage ?s1" by simp
  from buf obtain s' where w: "writeFragment m ps obj ?s1 = Inr s'" "pageIndex s' = pageIndex ?s1"
    unfolding writeFragment_Inr [OF o] by simp
  then show ?thesis unfolding placeObject_small_unfold [OF True] by (simp add: n)
next
  case False
  have o: "0 \<le> offsetInPage s" using ok by (simp add: writerOK_def)
  from buf obtain s' where w: "writeFragment m ps obj s = Inr s'" "pageIndex s' = pageIndex s"
    unfolding writeFragment_Inr [OF o] by simp
  then show ?thesis unfolding placeObject_small_fit_unfold [OF small False] by simp
qed

lemma placeObjects_small_success:
  assumes "writerOK ps s" and "20 \<le> ps" and "smallObjects m ps objs"
    and "pageIndex s + int (length objs) < int (length (pages s))"
  shows "\<exists>s'. placeObjects m ps objs s = Inr s'"
  using assms
proof (induction objs arbitrary: s)
  case Nil
  show ?case by simp
next
  case (Cons obj rest)
  have rest: "smallObjects m ps rest" using Cons.prems(3) by (simp add: smallObjects_def)
  show ?case
  proof (cases "type obj = Deleted")
    case True
    then have p: "placeObject m ps obj s = Inr s" by (simp add: placeObject_def)
    have "pageIndex s + int (length rest) < int (length (pages s))" using Cons.prems(4) by simp
    from Cons.IH [OF Cons.prems(1,2) rest this] show ?thesis by (simp add: p)
  next
    case False
    with Cons.prems(3) obtain buf where
      small: "type obj = CounterSmall \<or> type obj = DataSmall" and
      buf: "writeObject m obj = Inr buf" "length buf \<le> neededSpace m obj"
        "length buf + NVM3_PAGE_HEADER_SIZE \<le> ps"
      by (auto simp: smallObjects_def)
    have more: "pageIndex s + 1 < int (length (pages s))" using Cons.prems(4) by simp
    from placeObject_small_ok [OF Cons.prems(1) small buf(1) more] obtain s1 where
      s1: "placeObject m ps obj s = Inr s1" "pageIndex s1 \<le> pageIndex s + 1" by blast
    from placeObject_small_step [OF Cons.prems(1,2) small buf] s1(1)
    have ok1: "writerOK ps s1" and len: "length (pages s1) = length (pages s)" by blast+
    have "pageIndex s1 + int (length rest) < int (length (pages s1))"
      using Cons.prems(4) s1(2) len by simp
    from Cons.IH [OF ok1 Cons.prems(2) rest this] show ?thesis by (simp add: s1(1))
  qed
qed

lemma writeObjects_small_success:
  assumes "20 \<le> ps" and "smallObjects m ps (mapValues A)" and "length (mapValues A) < length pgs"
  shows "\<exists>pgs'. writeObjects m ps pgs A = Inr pgs'"
proof -
  have ne: "pgs \<noteq> []" using assms(3) by auto
  let ?s0 = "\<lparr>pages = pgs, pageIndex = 0, offsetInPage = 20, remainingSpace = int ps - 20\<rparr>"
  have "writerOK ps ?s0" using ne by (simp add: writerOK_def)
  from placeObjects_small_success [OF this assms(1,2)] assms(3)
  obtain s' where "placeObjects m ps (mapValues A) ?s0 = Inr s'" by auto
  then show ?thesis unfolding writeObjects_first_page [OF ne] by simp
qed




















text \<open>
  What writeObjects has written stays: the writer only moves forward, so the pages before
  the current one, and the current page up to the current offset, are never written again,
  and the pages after the current one are as they were.
\<close>

definition kept :: "WriterState \<Rightarrow> WriterState \<Rightarrow> bool" where
  "kept s s' \<longleftrightarrow>
     pageIndex s \<le> pageIndex s'
     \<and> length (pages s') = length (pages s)
     \<and> (\<forall>i. i < nat (pageIndex s) \<longrightarrow> pages s' ! i = pages s ! i)
     \<and> take (nat (offsetInPage s)) (pages s' ! nat (pageIndex s))
         = take (nat (offsetInPage s)) (pages s ! nat (pageIndex s))
     \<and> (pageIndex s' = pageIndex s \<longrightarrow> offsetInPage s \<le> offsetInPage s')
     \<and> (\<forall>i. nat (pageIndex s') < i \<and> i < length (pages s) \<longrightarrow> pages s' ! i = pages s ! i)"

lemma kept_refl: "kept s s"
  by (simp add: kept_def)

lemma keptD:
  assumes "kept s s'"
  shows "pageIndex s \<le> pageIndex s'" and "length (pages s') = length (pages s)"
    and "\<And>i. i < nat (pageIndex s) \<Longrightarrow> pages s' ! i = pages s ! i"
    and "take (nat (offsetInPage s)) (pages s' ! nat (pageIndex s))
           = take (nat (offsetInPage s)) (pages s ! nat (pageIndex s))"
    and "pageIndex s' = pageIndex s \<Longrightarrow> offsetInPage s \<le> offsetInPage s'"
    and "\<And>i. nat (pageIndex s') < i \<Longrightarrow> i < length (pages s) \<Longrightarrow> pages s' ! i = pages s ! i"
  using assms unfolding kept_def by blast+

lemma kept_trans:
  assumes a: "kept s s'" and b: "kept s' s''" and i: "0 \<le> pageIndex s" and o: "0 \<le> offsetInPage s"
  shows "kept s s''"
proof -
  have take_eq: "take (nat (offsetInPage s)) (pages s'' ! nat (pageIndex s))
         = take (nat (offsetInPage s)) (pages s' ! nat (pageIndex s))"
  proof (cases "pageIndex s' = pageIndex s")
    case True
    with a have "offsetInPage s \<le> offsetInPage s'" by (simp add: kept_def)
    then have le: "nat (offsetInPage s) \<le> nat (offsetInPage s')" by simp
    from b True have t: "take (nat (offsetInPage s')) (pages s'' ! nat (pageIndex s))
         = take (nat (offsetInPage s')) (pages s' ! nat (pageIndex s))" by (simp add: kept_def)
    have "take (nat (offsetInPage s)) (pages s'' ! nat (pageIndex s))
            = take (nat (offsetInPage s)) (take (nat (offsetInPage s')) (pages s'' ! nat (pageIndex s)))"
      using le by (simp add: min_def)
    also have "\<dots> = take (nat (offsetInPage s)) (pages s' ! nat (pageIndex s))"
      unfolding t using le by (simp add: min_def)
    finally show ?thesis .
  next
    case False
    with a have "pageIndex s < pageIndex s'" by (simp add: kept_def)
    with i have "nat (pageIndex s) < nat (pageIndex s')" by simp
    with b have "pages s'' ! nat (pageIndex s) = pages s' ! nat (pageIndex s)"
      by (simp add: kept_def)
    then show ?thesis by simp
  qed
  note a' = keptD [OF a] and b' = keptD [OF b]
  have before: "pages s'' ! j = pages s ! j" if "j < nat (pageIndex s)" for j
  proof -
    from that a'(1) have "j < nat (pageIndex s')" by linarith
    then have "pages s'' ! j = pages s' ! j" by (rule b'(3))
    also have "\<dots> = pages s ! j" using that by (rule a'(3))
    finally show ?thesis .
  qed
  have after: "pages s'' ! j = pages s ! j" if "nat (pageIndex s'') < j" "j < length (pages s)" for j
  proof -
    from that(2) a'(2) have "j < length (pages s')" by simp
    with that(1) have "pages s'' ! j = pages s' ! j" by (intro b'(6))
    moreover from b'(1) that(1) have "nat (pageIndex s') < j" by linarith
    then have "pages s' ! j = pages s ! j" using that(2) by (rule a'(6))
    ultimately show ?thesis by simp
  qed
  have mono: "offsetInPage s \<le> offsetInPage s''" if "pageIndex s'' = pageIndex s"
  proof -
    from that a'(1) b'(1) have e: "pageIndex s' = pageIndex s" "pageIndex s'' = pageIndex s'"
      by linarith+
    from a'(5) [OF e(1)] b'(5) [OF e(2)] show ?thesis by linarith
  qed
  have idx: "pageIndex s \<le> pageIndex s''" using a'(1) b'(1) by linarith
  have len: "length (pages s'') = length (pages s)" using a'(2) b'(2) by simp
  have tk: "take (nat (offsetInPage s)) (pages s'' ! nat (pageIndex s))
         = take (nat (offsetInPage s)) (pages s ! nat (pageIndex s))"
    using take_eq a'(4) by simp
  show ?thesis
    unfolding kept_def using idx len before tk mono after by blast
qed

lemma writeFragment_kept:
  assumes ok: "writerOK ps s" and w: "writeFragment m ps f s = Inr s'"
  shows "kept s s'" and "writerOK ps s'" and "pageIndex s' = pageIndex s"
proof -
  have o: "0 \<le> offsetInPage s" and i: "0 \<le> pageIndex s" "pageIndex s < int (length (pages s))"
    using ok by (simp_all add: writerOK_def)
  from w obtain buf where buf: "writeObject m f = Inr buf" and
    s': "s' = s\<lparr>pages := (pages s)[nat (pageIndex s)
                    := blit (pages s ! nat (pageIndex s)) (nat (offsetInPage s)) buf],
               offsetInPage := offsetInPage s + int (alignWord (length buf)),
               remainingSpace := int ps - (offsetInPage s + int (alignWord (length buf)))\<rparr>"
    unfolding writeFragment_Inr [OF o] by blast
  have lt: "nat (pageIndex s) < length (pages s)" using i by simp
  show "kept s s'"
    unfolding kept_def s' using lt by (simp add: take_blit)
  show "writerOK ps s'" using ok by (simp add: writerOK_def s')
  show "pageIndex s' = pageIndex s" by (simp add: s')
qed

lemma nextPage_kept:
  assumes ok: "writerOK ps s" and n: "nextPage ps s = Inr s'"
  shows "kept s s'" and "writerOK ps s'" and "pageIndex s' = pageIndex s + 1"
proof -
  from n have lt: "pageIndex s + 1 < int (length (pages s))" and
    s': "s' = s\<lparr>pageIndex := pageIndex s + 1, offsetInPage := 20, remainingSpace := int ps - 20\<rparr>"
    by (simp_all add: nextPage_Inr)
  show "kept s s'" unfolding kept_def s' by simp
  show "writerOK ps s'" using ok lt by (simp add: writerOK_def s')
  show "pageIndex s' = pageIndex s + 1" by (simp add: s')
qed

lemma writerOK_nonneg: "writerOK ps s \<Longrightarrow> 0 \<le> pageIndex s \<and> 0 \<le> offsetInPage s"
  by (simp add: writerOK_def)

lemma writeFragments_kept:
  assumes "writerOK ps s" and "writeFragments m ps sev frs s = Inr s'"
  shows "kept s s' \<and> writerOK ps s'"
  using assms
proof (induction frs arbitrary: s)
  case Nil
  then show ?case by (simp add: kept_refl)
next
  case (Cons f frs)
  from Cons.prems(2) obtain s2 where
    w: "writeFragment m ps f s = Inr s2" and
    r: "(if sev then bindE (nextPage ps s2) (\<lambda>s3. writeFragments m ps sev frs s3)
         else writeFragments m ps sev frs s2) = Inr s'"
    unfolding writeFragments_Cons by (auto simp: bindE_eq_Inr)
  note k2 = writeFragment_kept [OF Cons.prems(1) w]
  note nn = writerOK_nonneg [OF Cons.prems(1)]
  show ?case
  proof (cases sev)
    case True
    with r obtain s3 where n: "nextPage ps s2 = Inr s3"
      and r3: "writeFragments m ps sev frs s3 = Inr s'" by (auto simp: bindE_eq_Inr)
    note k3 = nextPage_kept [OF k2(2) n]
    note nn2 = writerOK_nonneg [OF k2(2)]
    from Cons.IH [OF k3(2) r3] have k': "kept s3 s'" "writerOK ps s'" by blast+
    have "kept s2 s'" using kept_trans [OF k3(1) k'(1)] nn2 by blast
    then have "kept s s'" using kept_trans [OF k2(1)] nn by blast
    with k'(2) show ?thesis by blast
  next
    case False
    with r have "writeFragments m ps sev frs s2 = Inr s'" by simp
    from Cons.IH [OF k2(2) this] have k': "kept s2 s'" "writerOK ps s'" by blast+
    have "kept s s'" using kept_trans [OF k2(1) k'(1)] nn by blast
    with k'(2) show ?thesis by blast
  qed
qed

lemma placeObject_kept:
  assumes ok: "writerOK ps s" and p: "placeObject m ps obj s = Inr s'"
  shows "kept s s' \<and> writerOK ps s'"
proof -
  note nn = writerOK_nonneg [OF ok]
  show ?thesis
  proof (cases "type obj = Deleted")
    case True
    then have "placeObject m ps obj s = Inr s" by (simp add: placeObject_def)
    with p ok show ?thesis by (simp add: kept_refl)
  next
    case nd: False
    show ?thesis
    proof (cases "(type obj = CounterSmall
               \<and> remainingSpace s < int (NVM3_OBJ_HEADER_SIZE_SMALL + NVM_COUNTER_SIZE))
            \<or> (type obj = DataSmall
               \<and> remainingSpace s < int (NVM3_OBJ_HEADER_SIZE_SMALL + length (payload obj)))")
      case True
      from p obtain s1 where n: "nextPage ps s = Inr s1"
        and w: "writeFragment m ps obj s1 = Inr s'"
        unfolding placeObject_small_unfold [OF True] by (auto simp: bindE_eq_Inr)
      note k1 = nextPage_kept [OF ok n]
      note k2 = writeFragment_kept [OF k1(2) w]
      have "kept s s'" using kept_trans [OF k1(1) k2(1)] nn by blast
      with k2(2) show ?thesis by blast
    next
      case nofit: False
      show ?thesis
      proof (cases "type obj = CounterLarge \<or> type obj = DataLarge")
        case True
        from p obtain frs where
          "writeFragments m ps (length frs > 1) frs s = Inr s'"
          unfolding placeObject_large_unfold [OF True] by (auto simp: bindE_eq_Inr)
        then show ?thesis by (rule writeFragments_kept [OF ok])
      next
        case False
        with nd nofit have "placeObject m ps obj s = writeFragments m ps False [obj] s"
          unfolding placeObject_def by (simp only: if_False)
        with p have "writeFragments m ps False [obj] s = Inr s'" by simp
        then show ?thesis by (rule writeFragments_kept [OF ok])
      qed
    qed
  qed
qed

lemma placeObjects_kept:
  assumes "writerOK ps s" and "placeObjects m ps objs s = Inr s'"
  shows "kept s s' \<and> writerOK ps s'"
  using assms
proof (induction objs arbitrary: s)
  case Nil
  then show ?case by (simp add: kept_refl)
next
  case (Cons obj objs)
  from Cons.prems(2) obtain s1 where
    p: "placeObject m ps obj s = Inr s1" and r: "placeObjects m ps objs s1 = Inr s'"
    by (auto simp: bindE_eq_Inr)
  from placeObject_kept [OF Cons.prems(1) p] have k1: "kept s s1" "writerOK ps s1" by blast+
  from Cons.IH [OF k1(2) r] have k': "kept s1 s'" "writerOK ps s'" by blast+
  have "kept s s'" using kept_trans [OF k1(1) k'(1)] writerOK_nonneg [OF Cons.prems(1)] by blast
  with k'(2) show ?case by blast
qed

lemma bindE_assoc: "bindE (bindE r f) g = bindE r (\<lambda>x. bindE (f x) g)"
  by (cases r) simp_all

definition firstState :: "nat \<Rightarrow> byte list list \<Rightarrow> WriterState" where
  \<comment> \<open>The state of writeObjects after its first call of nextPage, at the start of the body of
      the first page.\<close>
  "firstState ps pgs = \<lparr>pages = pgs, pageIndex = 0, offsetInPage = 20,
                          remainingSpace = int ps - 20\<rparr>"

lemma writeObjects_split:
  assumes "pgs \<noteq> []" and "mapValues objs = pre @ obj # rest"
  shows "writeObjects m ps pgs objs =
     bindE (placeObjects m ps pre (firstState ps pgs)) (\<lambda>s1.
     bindE (placeObject m ps obj s1) (\<lambda>s2.
     bindE (placeObjects m ps rest s2) (\<lambda>s'. Inr (pages s'))))"
proof -
  have "writeObjects m ps pgs objs
          = bindE (placeObjects m ps (pre @ obj # rest) (firstState ps pgs)) (\<lambda>s'. Inr (pages s'))"
    unfolding writeObjects_first_page [OF assms(1)] assms(2) firstState_def ..
  also have "placeObjects m ps (pre @ obj # rest) (firstState ps pgs)
          = bindE (placeObjects m ps pre (firstState ps pgs)) (\<lambda>s1.
              bindE (placeObject m ps obj s1) (\<lambda>s2. placeObjects m ps rest s2))"
    unfolding placeObjects_append by (rule bindE_cong) simp_all
  finally show ?thesis by (simp only: bindE_assoc)
qed

lemma writerOK_firstState: "pgs \<noteq> [] \<Longrightarrow> writerOK ps (firstState ps pgs)"
  by (simp add: writerOK_def firstState_def)


















definition bigObject :: NVMObject where
  \<comment> \<open>A large object whose payload is longer than a page body.\<close>
  "bigObject = \<lparr> key = 9, type = DataLarge, fragmentType = NoFragment,
                  data = Some (replicate 3000 0x55) \<rparr>"

definition bigFragment :: "FragmentType \<Rightarrow> nat \<Rightarrow> NVMObject" where
  "bigFragment st n = bigObject\<lparr>fragmentType := st, data := Some (replicate n 0x55)\<rparr>"


lemma chunks_step:
  "xs \<noteq> [] \<Longrightarrow> 0 < n \<Longrightarrow> chunks n xs = take n xs # chunks n (drop n xs)"
  by (cases xs) simp_all

lemma chunks_replicate:
  assumes "0 < k" and "k \<le> 2020"
  shows "chunks 2020 (replicate k x) = [replicate k x]"
  using assms by (intro chunks_short) simp_all

lemma chunks_replicate2:
  assumes "2020 < k" and "k \<le> 4040"
  shows "chunks 2020 (replicate k x) = [replicate 2020 x, replicate (k - 2020) x]"
proof -
  have "chunks 2020 (replicate k x)
          = take 2020 (replicate k x) # chunks 2020 (drop 2020 (replicate k x))"
    using assms by (intro chunks_step) auto
  also have "take 2020 (replicate k x) = replicate 2020 x" using assms by (simp add: min_def)
  also have "chunks 2020 (drop 2020 (replicate k x)) = [replicate (k - 2020) x]"
    using assms chunks_replicate [of "k - 2020" x] by simp
  finally show ?thesis .
qed

lemma refFragment_bigObject:
  assumes r: "0 \<le> r" "r \<le> 2028" and f: "fragmentLargeObject refLayer bigObject r 2028 = Inr frs"
  shows "\<exists>n1. 0 < n1 \<and> n1 \<le> 2020 \<and> r = int n1 + 8
           \<and> frs = bigFragment First n1
                   # (if n1 < 980 then [bigFragment Next 2020, bigFragment Last (980 - n1)]
                      else [bigFragment Last (3000 - n1)])"
proof -
  have pl: "payload bigObject = replicate 3000 0x55" by (simp add: bigObject_def payload_def)
  have big: "\<not> 8 + int (length (payload bigObject)) \<le> r" using r by (simp add: pl)
  from f have f': "refFragmentLargeObject bigObject r 2028 = Inr frs" by (simp add: refLayer_def)
  have gt: "8 < r"
  proof (rule ccontr)
    assume "\<not> 8 < r"
    then have "refFragmentLargeObject bigObject r 2028 = Inl (ObjectError (key bigObject))"
      using big by (simp add: refFragmentLargeObject_def Let_def)
    with f' show False by simp
  qed
  define n1 where "n1 = nat (r - 8)"
  have n1: "0 < n1" "n1 \<le> 2020" "r = int n1 + 8" using gt r by (simp_all add: n1_def)
  have tk: "take n1 (replicate 3000 (0x55 :: byte)) = replicate n1 0x55"
    using n1 by (simp add: min_def)
  have dr: "drop n1 (replicate 3000 (0x55 :: byte)) = replicate (3000 - n1) 0x55" by simp
  have frs: "frs = (let parts = replicate n1 0x55 # chunks 2020 (replicate (3000 - n1) 0x55);
                        frag = (\<lambda>st p. bigObject\<lparr>fragmentType := st, data := Some p\<rparr>)
                    in frag First (hd parts) # map (frag Next) (butlast (tl parts))
                       @ [frag Last (last parts)])"
    using f' big gt unfolding refFragmentLargeObject_def Let_def pl tk dr n1_def [symmetric]
    by (simp add: n1_def)
  show ?thesis
  proof (cases "n1 < 980")
    case True
    then have c: "chunks 2020 (replicate (3000 - n1) (0x55 :: byte))
                    = [replicate 2020 0x55, replicate (980 - n1) 0x55]"
      using chunks_replicate2 [of "3000 - n1" "0x55 :: byte"] by simp
    have "frs = [bigFragment First n1, bigFragment Next 2020, bigFragment Last (980 - n1)]"
      unfolding frs c by (simp add: bigFragment_def)
    with n1 True show ?thesis by auto
  next
    case False
    then have c: "chunks 2020 (replicate (3000 - n1) (0x55 :: byte)) = [replicate (3000 - n1) 0x55]"
      using n1 by (intro chunks_replicate) simp_all
    have "frs = [bigFragment First n1, bigFragment Last (3000 - n1)]"
      unfolding frs c by (simp add: bigFragment_def)
    with n1 False show ?thesis by auto
  qed
qed

lemma refWriteObject_bigFragment:
  assumes "n < 65536"
  shows "\<exists>buf. writeObject refLayer (bigFragment st n) = Inr buf \<and> length buf = 8 + n"
  using assms
  by (simp add: refLayer_def refWriteObject_def bigFragment_def bigObject_def Let_def isLarge_def
      payload_def)

lemma refWellFormed_bigFragment: "n < 65536 \<Longrightarrow> refWellFormed (bigFragment st n)"
  by (simp add: refWellFormed_def bigFragment_def bigObject_def isLarge_def payload_def)

lemma refWellFormed_bigObject: "refWellFormed bigObject"
  by (simp add: refWellFormed_def bigObject_def isLarge_def payload_def)

lemma bigFragment_simps [simp]:
  "key (bigFragment st n) = 9" "type (bigFragment st n) = DataLarge"
  "fragmentType (bigFragment st n) = st" "payload (bigFragment st n) = replicate n 0x55"
  by (simp_all add: bigFragment_def bigObject_def payload_def)

lemma refFragment_long_payload:
  assumes f: "refFragmentLargeObject obj r B = Inr frs" and r: "r \<le> B"
    and long: "B < int (length (payload obj))"
  shows "2 \<le> length frs" and "fragmentType (hd frs) = First" and "fragmentType (last frs) = Last"
proof -
  have big: "\<not> 8 + int (length (payload obj)) \<le> r" using r long by simp
  have ok: "\<not> (r \<le> 8 \<or> B \<le> 8)"
  proof
    assume "r \<le> 8 \<or> B \<le> 8"
    then have "refFragmentLargeObject obj r B = Inl (ObjectError (key obj))"
      using big by (simp add: refFragmentLargeObject_def Let_def)
    with f show False by simp
  qed
  define parts where "parts = take (nat (r - 8)) (payload obj)
                               # chunks (nat (B - 8)) (drop (nat (r - 8)) (payload obj))"
  have frs: "frs = obj\<lparr>fragmentType := First, data := Some (hd parts)\<rparr>
                   # map (\<lambda>p. obj\<lparr>fragmentType := Next, data := Some p\<rparr>) (butlast (tl parts))
                   @ [obj\<lparr>fragmentType := Last, data := Some (last parts)\<rparr>]"
    using f big ok by (simp add: refFragmentLargeObject_def Let_def parts_def)
  show "2 \<le> length frs" unfolding frs by simp
  show "fragmentType (hd frs) = First" unfolding frs by simp
  show "fragmentType (last frs) = Last" unfolding frs by simp
qed

text \<open>
  C7. In a run of writeObjects, when fragmentLargeObject returns more than one fragment for a
  CounterLarge or DataLarge object, the writer moves to the next page after each fragment it
  writes, the last one included: in what writeObjects returns, the first fragment is on the
  current page at the current offset and every further fragment at the start of the body of
  the next page after the one before, a page not written before, so that no two fragments
  share a page; the pages before are as they were; and the page after the last fragment
  must exist, or writeObjects fails with the error \<^verbatim>\<open>Not enough pages!\<close>. In particular,
  with fragmentLargeObject as section 4.2 describes it, a DataLarge object whose payload is
  longer than a page body is returned in at least two fragments, the first with the status
  first and the last with the status last, and these are placed in this way.
\<close>

theorem writeObjects_large_fragments:
  assumes pgs: "pgs \<noteq> []" and objs: "mapValues objs = pre @ obj # rest"
    and pre: "placeObjects m ps pre (firstState ps pgs) = Inr s1"
    and large: "type obj = CounterLarge \<or> type obj = DataLarge"
    and frs: "fragmentLargeObject m obj (remainingSpace s1) (int ps - int NVM3_PAGE_HEADER_SIZE)
                = Inr frs"
  shows "(1 < length frs \<longrightarrow>
           (\<forall>pgs'. writeObjects m ps pgs objs = Inr pgs' \<longrightarrow>
               pageIndex s1 + int (length frs) < int (length pgs)
             \<and> (\<forall>k<length frs. \<exists>buf. writeObject m (frs ! k) = Inr buf
                   \<and> pgs' ! (nat (pageIndex s1) + k)
                       = (if k = 0
                          then blit (pages s1 ! nat (pageIndex s1)) (nat (offsetInPage s1)) buf
                          else blit (pgs ! (nat (pageIndex s1) + k)) 20 buf))
             \<and> (\<forall>i<nat (pageIndex s1). pgs' ! i = pages s1 ! i))
         \<and> ((\<forall>f\<in>set frs. \<exists>buf. writeObject m f = Inr buf)
              \<and> int (length pgs) \<le> pageIndex s1 + int (length frs)
              \<longrightarrow> writeObjects m ps pgs objs = Inl NotEnoughPages)
         \<and> (rest = [] \<and> (\<forall>f\<in>set frs. \<exists>buf. writeObject m f = Inr buf)
              \<and> pageIndex s1 + int (length frs) < int (length pgs)
              \<longrightarrow> (\<exists>pgs'. writeObjects m ps pgs objs = Inr pgs')))
       \<and> (fragmentLargeObject m = refFragmentLargeObject \<and> type obj = DataLarge
            \<and> int ps - int NVM3_PAGE_HEADER_SIZE < int (length (payload obj))
           \<longrightarrow> 1 < length frs \<and> fragmentType (hd frs) = First
               \<and> fragmentType (last frs) = Last)"
proof -
  note split = writeObjects_split [OF pgs objs, of m ps, unfolded pre bindE_Inr]
  from placeObjects_kept [OF writerOK_firstState [OF pgs] pre]
  have k1: "kept (firstState ps pgs) s1" and ok1: "writerOK ps s1" by blast+
  have len1: "length (pages s1) = length pgs" using keptD(2) [OF k1] by (simp add: firstState_def)
  have i1: "0 \<le> pageIndex s1" "0 \<le> offsetInPage s1" "pageIndex s1 < int (length (pages s1))"
    using ok1 by (simp_all add: writerOK_def)
  note round = placeObject_large_round [OF large frs i1(1,2)]
  note u = placeObject_large_unfold [OF large, of m ps s1, unfolded frs bindE_Inr]
  let ?i = "nat (pageIndex s1)"
  have fresh: "pages s1 ! (?i + k) = pgs ! (?i + k)" if "0 < k" "?i + k < length pgs" for k
  proof -
    have "nat (pageIndex s1) < ?i + k" using that by simp
    moreover have "?i + k < length (pages (firstState ps pgs))" using that by (simp add: firstState_def)
    ultimately have "pages s1 ! (?i + k) = pages (firstState ps pgs) ! (?i + k)"
      by (rule keptD(6) [OF k1])
    then show ?thesis by (simp add: firstState_def)
  qed
  have a: "\<forall>pgs'. writeObjects m ps pgs objs = Inr pgs' \<longrightarrow>
               pageIndex s1 + int (length frs) < int (length pgs)
             \<and> (\<forall>k<length frs. \<exists>buf. writeObject m (frs ! k) = Inr buf
                   \<and> pgs' ! (?i + k)
                       = (if k = 0
                          then blit (pages s1 ! ?i) (nat (offsetInPage s1)) buf
                          else blit (pgs ! (?i + k)) 20 buf))
             \<and> (\<forall>i<?i. pgs' ! i = pages s1 ! i)" if several: "1 < length frs"
  proof (intro allI impI)
    fix pgs'
    assume w: "writeObjects m ps pgs objs = Inr pgs'"
    then obtain s2 s' where
      p2: "placeObject m ps obj s1 = Inr s2" and r: "placeObjects m ps rest s2 = Inr s'" and
      res: "pgs' = pages s'"
      unfolding split by (auto simp: bindE_eq_Inr)
    from round several p2 have
      pi2: "pageIndex s2 = pageIndex s1 + int (length frs)" and
      lt2: "pageIndex s2 < int (length (pages s1))" and
      fr: "\<forall>k<length frs. \<exists>buf. writeObject m (frs ! k) = Inr buf
                  \<and> pages s2 ! (?i + k)
                      = blit (pages s1 ! (?i + k)) (if k = 0 then nat (offsetInPage s1) else 20) buf" and
      oth: "\<forall>i. i < ?i \<or> ?i + length frs \<le> i \<longrightarrow> pages s2 ! i = pages s1 ! i"
      by blast+
    from placeObject_kept [OF ok1 p2] have ok2: "writerOK ps s2" by blast
    from placeObjects_kept [OF ok2 r] have k2: "kept s2 s'" by blast
    have n2: "nat (pageIndex s2) = ?i + length frs" using i1 by (simp add: pi2 nat_add_distrib)
    have lt: "pageIndex s1 + int (length frs) < int (length pgs)" using lt2 pi2 len1 by simp
    have frag: "\<exists>buf. writeObject m (frs ! k) = Inr buf
                   \<and> pgs' ! (?i + k)
                       = (if k = 0
                          then blit (pages s1 ! ?i) (nat (offsetInPage s1)) buf
                          else blit (pgs ! (?i + k)) 20 buf)" if k: "k < length frs" for k
    proof -
      from fr k obtain buf where
        b: "writeObject m (frs ! k) = Inr buf" and
        pg: "pages s2 ! (?i + k)
               = blit (pages s1 ! (?i + k)) (if k = 0 then nat (offsetInPage s1) else 20) buf"
        by blast
      have "?i + k < nat (pageIndex s2)" using k by (simp add: n2)
      then have e: "pgs' ! (?i + k) = pages s2 ! (?i + k)" unfolding res by (rule keptD(3) [OF k2])
      show ?thesis
      proof (cases "k = 0")
        case True
        with e pg b show ?thesis by auto
      next
        case False
        have "?i + k < length pgs" using k lt i1 by linarith
        with False have "pages s1 ! (?i + k) = pgs ! (?i + k)" by (intro fresh) simp_all
        with e pg b False show ?thesis by auto
      qed
    qed
    have before: "\<forall>i<?i. pgs' ! i = pages s1 ! i"
    proof (intro allI impI)
      fix i
      assume i: "i < ?i"
      then have "i < nat (pageIndex s2)" by (simp add: n2)
      then have "pgs' ! i = pages s2 ! i" unfolding res by (rule keptD(3) [OF k2])
      with oth i show "pgs' ! i = pages s1 ! i" by simp
    qed
    from lt frag before
    show "pageIndex s1 + int (length frs) < int (length pgs)
             \<and> (\<forall>k<length frs. \<exists>buf. writeObject m (frs ! k) = Inr buf
                   \<and> pgs' ! (?i + k)
                       = (if k = 0
                          then blit (pages s1 ! ?i) (nat (offsetInPage s1)) buf
                          else blit (pgs ! (?i + k)) 20 buf))
             \<and> (\<forall>i<?i. pgs' ! i = pages s1 ! i)"
      by blast
  qed
  have b: "writeObjects m ps pgs objs = Inl NotEnoughPages"
    if several: "1 < length frs" and wr: "\<forall>f\<in>set frs. \<exists>buf. writeObject m f = Inr buf"
      and short: "int (length pgs) \<le> pageIndex s1 + int (length frs)"
  proof -
    have "int (length (pages s1)) \<le> pageIndex s1 + int (length frs)" using short len1 by simp
    from writeFragments_several_exhausted [OF wr i1(2,3) this, of ps]
    have "placeObject m ps obj s1 = Inl NotEnoughPages" unfolding u using several by simp
    then show ?thesis unfolding split by simp
  qed
  have c: "\<exists>pgs'. writeObjects m ps pgs objs = Inr pgs'"
    if several: "1 < length frs" and e: "rest = []"
      and wr: "\<forall>f\<in>set frs. \<exists>buf. writeObject m f = Inr buf"
      and enough: "pageIndex s1 + int (length frs) < int (length pgs)"
  proof -
    from round several wr enough len1 obtain s2 where "placeObject m ps obj s1 = Inr s2" by auto
    then show ?thesis unfolding split e by simp
  qed
  have d: "1 < length frs \<and> fragmentType (hd frs) = First \<and> fragmentType (last frs) = Last"
    if spec: "fragmentLargeObject m = refFragmentLargeObject"
      and long: "int ps - int NVM3_PAGE_HEADER_SIZE < int (length (payload obj))"
  proof -
    have f: "refFragmentLargeObject obj (remainingSpace s1) (int ps - int NVM3_PAGE_HEADER_SIZE)
               = Inr frs" using frs spec by simp
    have r: "remainingSpace s1 \<le> int ps - int NVM3_PAGE_HEADER_SIZE"
      using ok1 by (simp add: writerOK_def NVM3_PAGE_HEADER_SIZE_def)
    from refFragment_long_payload [OF f r long] show ?thesis by simp
  qed
  from a b c d show ?thesis by blast
qed


definition bigMap :: "NVMObject jsmap" where
  "bigMap = [(9, bigObject)]"

lemma refFragment_bigObject_fresh:
  "fragmentLargeObject refLayer bigObject (remainingSpace (firstState 2048 (replicate 6 erasedPage)))
      (int 2048 - int NVM3_PAGE_HEADER_SIZE)
     = Inr [bigFragment First 2020, bigFragment Last 980]"
proof -
  have c: "chunks 2020 (replicate 980 (0x55 :: byte)) = [replicate 980 0x55]"
    by (rule chunks_replicate) simp_all
  show ?thesis
    by (simp add: refLayer_def refFragmentLargeObject_def bigObject_def firstState_def
        NVM3_PAGE_HEADER_SIZE_def payload_def Let_def c bigFragment_def)
qed

theorem writeObjects_large_fragments_witness:
  "fragmentLargeObject refLayer bigObject (remainingSpace (firstState 2048 (replicate 6 erasedPage)))
      (int 2048 - int NVM3_PAGE_HEADER_SIZE)
     = Inr [bigFragment First 2020, bigFragment Last 980]
   \<and> int 2048 - int NVM3_PAGE_HEADER_SIZE < int (length (payload bigObject))
   \<and> (\<exists>pgs'. writeObjects refLayer 2048 (replicate 6 erasedPage) bigMap = Inr pgs'
         \<and> (\<exists>buf. writeObject refLayer (bigFragment First 2020) = Inr buf
                \<and> pgs' ! 0 = blit erasedPage 20 buf)
         \<and> (\<exists>buf. writeObject refLayer (bigFragment Last 980) = Inr buf
                \<and> pgs' ! 1 = blit erasedPage 20 buf))"
proof -
  let ?pgs = "replicate 6 erasedPage"
  let ?s1 = "firstState 2048 ?pgs"
  let ?frs = "[bigFragment First 2020, bigFragment Last 980]"
  have pgs: "?pgs \<noteq> []" by simp
  have objs: "mapValues bigMap = [] @ bigObject # []" by (simp add: bigMap_def mapValues_def)
  have pre: "placeObjects refLayer 2048 [] ?s1 = Inr ?s1" by simp
  have large: "type bigObject = CounterLarge \<or> type bigObject = DataLarge"
    by (simp add: bigObject_def)
  note t = writeObjects_large_fragments [OF pgs objs pre large refFragment_bigObject_fresh]
  have sev: "1 < length ?frs" by simp
  have long: "int 2048 - int NVM3_PAGE_HEADER_SIZE < int (length (payload bigObject))"
    by (simp add: NVM3_PAGE_HEADER_SIZE_def bigObject_def payload_def)
  have wr: "\<forall>f\<in>set ?frs. \<exists>buf. writeObject refLayer f = Inr buf"
    using refWriteObject_bigFragment [of 2020 First] refWriteObject_bigFragment [of 980 Last]
    by auto
  have enough: "pageIndex ?s1 + int (length ?frs) < int (length ?pgs)"
    by (simp add: firstState_def)
  from t sev wr enough obtain pgs' where
    w: "writeObjects refLayer 2048 ?pgs bigMap = Inr pgs'" by blast
  from t sev w have fr: "\<forall>k<length ?frs. \<exists>buf. writeObject refLayer (?frs ! k) = Inr buf
                   \<and> pgs' ! (nat (pageIndex ?s1) + k)
                       = (if k = 0
                          then blit (pages ?s1 ! nat (pageIndex ?s1)) (nat (offsetInPage ?s1)) buf
                          else blit (?pgs ! (nat (pageIndex ?s1) + k)) 20 buf)"
    by blast
  have f0: "\<exists>buf. writeObject refLayer (bigFragment First 2020) = Inr buf
                \<and> pgs' ! 0 = blit erasedPage 20 buf"
    using fr [rule_format, of 0] by (simp add: firstState_def)
  have f1: "\<exists>buf. writeObject refLayer (bigFragment Last 980) = Inr buf
                \<and> pgs' ! 1 = blit erasedPage 20 buf"
    using fr [rule_format, of 1] by (simp add: firstState_def)
  from refFragment_bigObject_fresh long w f0 f1 show ?thesis by blast
qed

end
